theory Spec2Isabelle
  imports Main "HOL-Library.Word"
begin

section \<open>The out-of-order core of src/ooo.cpp\<close>

text \<open>
  The file src/ooo.cpp holds the four pipeline stages of the class Core:
  \<^verbatim>\<open>Core::issue\<close>, \<^verbatim>\<open>Core::execute\<close>, \<^verbatim>\<open>Core::writeback\<close> and \<^verbatim>\<open>Core::commit\<close>.
  They are embedded below as functions from the state of the core to either a fatal
  abort or the next state. The classes the stages call (instruction, register alias
  table, reorder buffer, reservation stations, common data bus, functional units) are
  declared in headers that are not part of src/; each is modelled from the contract of
  section 4 of the specification and marked as such.
\<close>

subsection \<open>Fatal aborts\<close>

text \<open>
  \<^verbatim>\<open>std::vector::at\<close> throws on an index out of range and \<^verbatim>\<open>assert\<close>, taken as enabled,
  aborts; section 7 of the specification makes access to an absent entry fatal as well.
  Nothing in the core catches either, so both end the run.
\<close>

datatype fatal = OutOfRange | AssertFailed

definition bind_err :: "fatal + 'a \<Rightarrow> ('a \<Rightarrow> fatal + 'b) \<Rightarrow> fatal + 'b" where
  "bind_err m f = (case m of Inl e \<Rightarrow> Inl e | Inr v \<Rightarrow> f v)"

definition at :: "'a list \<Rightarrow> nat \<Rightarrow> fatal + 'a" where
  "at xs i = (if i < length xs then Inr (xs ! i) else Inl OutOfRange)"

definition put :: "'a list \<Rightarrow> nat \<Rightarrow> 'a \<Rightarrow> fatal + 'a list" where
  "put xs i v = (if i < length xs then Inr (xs[i := v]) else Inl OutOfRange)"

subsection \<open>Instructions\<close>

text \<open>
  Modelled from the spec: the types of types.h and the instruction class are missing.
  Section 3 gives the execute-flags as four booleans; section 6 gives the accessors
  \<^verbatim>\<open>getRs1\<close>, \<^verbatim>\<open>getRs2\<close>, \<^verbatim>\<open>getRd\<close> (register ids), \<^verbatim>\<open>getExeFlags\<close> and \<^verbatim>\<open>getFUType\<close>
  (the functional-unit category, used as an index into the units).
\<close>

type_synonym word32 = "32 word"

record ExeFlags =
  use_rs1 :: bool
  use_rs2 :: bool
  use_rd :: bool
  is_exit :: bool

record Instr =
  getRs1 :: nat
  getRs2 :: nat
  getRd :: nat
  getExeFlags :: ExeFlags
  getFUType :: nat

subsection \<open>Register alias table\<close>

text \<open>
  Modelled from the spec: the class of \<^verbatim>\<open>RAT_\<close> is missing. Section 4.1: \<^verbatim>\<open>exists(reg)\<close>,
  \<^verbatim>\<open>get(reg)\<close>, \<^verbatim>\<open>set(reg, rob_index)\<close>, \<^verbatim>\<open>clear(reg)\<close>; \<^verbatim>\<open>set\<close> overwrites, \<^verbatim>\<open>get\<close> on a
  register with no mapping is undefined and guarded by \<^verbatim>\<open>exists\<close> at every call.
\<close>

type_synonym rat = "nat \<rightharpoonup> nat"

definition RAT_exists :: "rat \<Rightarrow> nat \<Rightarrow> bool" where
  "RAT_exists m reg = (m reg \<noteq> None)"

definition RAT_get :: "rat \<Rightarrow> nat \<Rightarrow> nat" where
  "RAT_get m reg = the (m reg)"

definition RAT_set :: "rat \<Rightarrow> nat \<Rightarrow> nat \<Rightarrow> rat" where
  "RAT_set m reg rob_index = m(reg \<mapsto> rob_index)"

definition RAT_clear :: "rat \<Rightarrow> nat \<Rightarrow> rat" where
  "RAT_clear m reg = m(reg := None)"

subsection \<open>Common data bus\<close>

text \<open>
  Modelled from the spec: the class of \<^verbatim>\<open>CDB_\<close> is missing. Section 4.4: a single-slot
  channel with \<^verbatim>\<open>empty()\<close>, \<^verbatim>\<open>push(result, rob_index, rs_index)\<close>, \<^verbatim>\<open>data()\<close> and \<^verbatim>\<open>pop()\<close>.
\<close>

record cdb_data =
  cdb_result :: word32
  cdb_rob_index :: nat
  cdb_rs_index :: nat

type_synonym cdb = "cdb_data option"

definition CDB_empty :: "cdb \<Rightarrow> bool" where
  "CDB_empty c = (c = None)"

definition CDB_push :: "cdb \<Rightarrow> word32 \<Rightarrow> nat \<Rightarrow> nat \<Rightarrow> cdb" where
  "CDB_push c res rob_index rs_index =
     Some \<lparr>cdb_result = res, cdb_rob_index = rob_index, cdb_rs_index = rs_index\<rparr>"

definition CDB_data :: "cdb \<Rightarrow> cdb_data" where
  "CDB_data c = the c"

definition CDB_pop :: "cdb \<Rightarrow> cdb" where
  "CDB_pop c = None"

subsection \<open>Reorder buffer\<close>

text \<open>
  Modelled from the spec: the class of \<^verbatim>\<open>ROB_\<close> is missing. Section 4.2: a circular,
  fixed-capacity FIFO. \<^verbatim>\<open>allocate\<close> appends a not-ready entry at the tail and returns its
  index, \<^verbatim>\<open>update\<close> (here \<open>ROB_update_msg\<close>) marks the entry at the message's reorder index ready and stores the
  result, \<^verbatim>\<open>pop\<close> retires the oldest entry. The tail is the slot \<open>count\<close> places after the
  head, modulo the capacity. Reading a slot outside the buffer is fatal (section 7).
\<close>

record rob_entry =
  rob_instr :: Instr
  rob_ready :: bool
  rob_result :: word32

record rob =
  rob_store :: "rob_entry list"
  rob_head :: nat
  rob_count :: nat

definition ROB_full :: "rob \<Rightarrow> bool" where
  "ROB_full r = (rob_count r = length (rob_store r))"

definition ROB_empty :: "rob \<Rightarrow> bool" where
  "ROB_empty r = (rob_count r = 0)"

definition ROB_tail_index :: "rob \<Rightarrow> nat" where
  "ROB_tail_index r = (rob_head r + rob_count r) mod length (rob_store r)"

definition ROB_head_index :: "rob \<Rightarrow> nat" where
  "ROB_head_index r = rob_head r"

definition ROB_allocate :: "rob \<Rightarrow> Instr \<Rightarrow> nat \<times> rob" where
  "ROB_allocate r instr =
     (ROB_tail_index r,
      r\<lparr>rob_store := (rob_store r)[ROB_tail_index r :=
           \<lparr>rob_instr = instr, rob_ready = False, rob_result = 0\<rparr>],
        rob_count := rob_count r + 1\<rparr>)"

definition ROB_get_entry :: "rob \<Rightarrow> nat \<Rightarrow> fatal + rob_entry" where
  "ROB_get_entry r idx = at (rob_store r) idx"

definition ROB_update_msg :: "rob \<Rightarrow> cdb_data \<Rightarrow> fatal + rob" where
  "ROB_update_msg r msg =
     bind_err (at (rob_store r) (cdb_rob_index msg)) (\<lambda>entry.
       Inr (r\<lparr>rob_store := (rob_store r)[cdb_rob_index msg :=
                 entry\<lparr>rob_ready := True, rob_result := cdb_result msg\<rparr>]\<rparr>))"

definition ROB_pop :: "rob \<Rightarrow> rob" where
  "ROB_pop r =
     r\<lparr>rob_head := (rob_head r + 1) mod length (rob_store r),
       rob_count := rob_count r - 1\<rparr>"

subsection \<open>Reservation stations\<close>

text \<open>
  Modelled from the spec: the class of \<^verbatim>\<open>RS_\<close> is missing. Section 4.3: a fixed-size slot
  array. \<^verbatim>\<open>issue\<close> claims a free slot (here the free slot of lowest index), stores the
  operand state with \<open>-1\<close> for an operand that is already resolved, and marks the slot
  valid and not running; \<^verbatim>\<open>operands_ready\<close> holds when both producer ids are \<open>-1\<close>;
  \<^verbatim>\<open>update_operands\<close> replaces a pending marker that matches the broadcasting slot by the
  broadcast result; \<^verbatim>\<open>release\<close> invalidates a slot. \<^verbatim>\<open>issue\<close> must not be called on a full
  pool, and the core checks \<^verbatim>\<open>full()\<close> first.
\<close>

record rs_entry =
  rs_valid :: bool
  rs_running :: bool
  rs_rob_index :: nat
  rs1_index :: int
  rs2_index :: int
  rs1_data :: word32
  rs2_data :: word32
  rs_instr :: Instr

definition RS_size :: "rs_entry list \<Rightarrow> nat" where
  "RS_size rs = length rs"

definition RS_full :: "rs_entry list \<Rightarrow> bool" where
  "RS_full rs = list_all rs_valid rs"

definition RS_get_entry :: "rs_entry list \<Rightarrow> nat \<Rightarrow> rs_entry" where
  "RS_get_entry rs idx = rs ! idx"

fun RS_free_slot :: "rs_entry list \<Rightarrow> nat" where
  "RS_free_slot [] = 0"
| "RS_free_slot (e # es) = (if rs_valid e then Suc (RS_free_slot es) else 0)"

definition RS_issue ::
  "rs_entry list \<Rightarrow> nat \<Rightarrow> int \<Rightarrow> int \<Rightarrow> word32 \<Rightarrow> word32 \<Rightarrow> Instr \<Rightarrow> nat \<times> rs_entry list" where
  "RS_issue rs rob_index rs1_rsid rs2_rsid rs1_dat rs2_dat instr =
     (RS_free_slot rs,
      rs[RS_free_slot rs :=
           \<lparr>rs_valid = True, rs_running = False, rs_rob_index = rob_index,
            rs1_index = rs1_rsid, rs2_index = rs2_rsid,
            rs1_data = rs1_dat, rs2_data = rs2_dat, rs_instr = instr\<rparr>])"

definition RS_operands_ready :: "rs_entry list \<Rightarrow> nat \<Rightarrow> bool" where
  "RS_operands_ready rs idx = (rs1_index (rs ! idx) = - 1 \<and> rs2_index (rs ! idx) = - 1)"

definition update_operands :: "rs_entry \<Rightarrow> cdb_data \<Rightarrow> rs_entry" where
  "update_operands entry msg =
     (let e1 = (if rs1_index entry = int (cdb_rs_index msg)
                then entry\<lparr>rs1_index := - 1, rs1_data := cdb_result msg\<rparr> else entry)
      in if rs2_index e1 = int (cdb_rs_index msg)
         then e1\<lparr>rs2_index := - 1, rs2_data := cdb_result msg\<rparr> else e1)"

definition RS_release :: "rs_entry list \<Rightarrow> nat \<Rightarrow> fatal + rs_entry list" where
  "RS_release rs idx =
     bind_err (at rs idx) (\<lambda>entry. Inr (rs[idx := entry\<lparr>rs_valid := False\<rparr>]))"

subsection \<open>Functional units and the external policies\<close>

text \<open>
  Modelled from the spec: the functional-unit classes are missing. Section 4.5: a unit
  is busy from \<^verbatim>\<open>issue\<close> until \<^verbatim>\<open>clear\<close>; \<^verbatim>\<open>issue\<close> begins a latency countdown, \<^verbatim>\<open>execute\<close>
  advances it by one cycle, \<^verbatim>\<open>done\<close> holds once it has reached zero and the result has
  not been consumed, \<^verbatim>\<open>get_output\<close> gives the result with its reorder index and slot id.
  What the specification leaves to the collaborators is a parameter \<open>x\<close> of the model:
  the latency and the result of an instruction, and the locking predicate of the
  reservation stations (section 4.3, \<^verbatim>\<open>locked(idx)\<close>).
\<close>

record fu_output =
  out_result :: word32
  out_rob_index :: nat
  out_rs_index :: nat

record FU =
  fu_busy :: bool
  fu_countdown :: nat
  fu_output :: fu_output

record ext =
  latency :: "Instr \<Rightarrow> nat"
  compute :: "Instr \<Rightarrow> word32 \<Rightarrow> word32 \<Rightarrow> word32"
  locked :: "rs_entry list \<Rightarrow> nat \<Rightarrow> bool"

definition RS_locked :: "ext \<Rightarrow> rs_entry list \<Rightarrow> nat \<Rightarrow> bool" where
  "RS_locked x rs idx = locked x rs idx"

definition FU_busy :: "FU \<Rightarrow> bool" where
  "FU_busy fu = fu_busy fu"

definition FU_issue :: "ext \<Rightarrow> FU \<Rightarrow> Instr \<Rightarrow> nat \<Rightarrow> nat \<Rightarrow> word32 \<Rightarrow> word32 \<Rightarrow> FU" where
  "FU_issue x fu instr rob_index rs_index rs1_dat rs2_dat =
     \<lparr>fu_busy = True, fu_countdown = latency x instr,
      fu_output = \<lparr>out_result = compute x instr rs1_dat rs2_dat,
                   out_rob_index = rob_index, out_rs_index = rs_index\<rparr>\<rparr>"

definition FU_execute :: "FU \<Rightarrow> FU" where
  "FU_execute fu =
     (if fu_busy fu \<and> 0 < fu_countdown fu then fu\<lparr>fu_countdown := fu_countdown fu - 1\<rparr>
      else fu)"

definition FU_done :: "FU \<Rightarrow> bool" where
  "FU_done fu = (fu_busy fu \<and> fu_countdown fu = 0)"

definition FU_get_output :: "FU \<Rightarrow> fu_output" where
  "FU_get_output fu = fu_output fu"

definition FU_clear :: "FU \<Rightarrow> FU" where
  "FU_clear fu = fu\<lparr>fu_busy := False\<rparr>"

subsection \<open>The state of the core\<close>

text \<open>
  Modelled from the spec: core.h, which declares the members of Core, is missing. The
  record holds the members that the four stages read or write, with the containers of
  section 3: the issue queue with the next instruction at its front, the table
  \<^verbatim>\<open>RST_\<close> from reorder index to slot id, the register file (read and written with
  \<^verbatim>\<open>at\<close>, which throws out of range), the counter \<^verbatim>\<open>perf_stats_.instrs\<close> of committed
  instructions and the counter \<^verbatim>\<open>fetched_instrs_\<close>, both taken as unbounded naturals, and
  the termination flag \<^verbatim>\<open>exited_\<close>.
\<close>

record core =
  issue_queue :: "Instr list"
  RS :: "rs_entry list"
  ROB :: rob
  RAT :: rat
  RST :: "nat \<Rightarrow> int"
  CDB :: cdb
  FUs :: "FU list"
  reg_file :: "word32 list"
  perf_instrs :: nat
  fetched_instrs :: nat
  exited :: bool

subsection \<open>Core::issue\<close>

definition issue :: "core \<Rightarrow> fatal + core" where
  "issue s =
    (if issue_queue s = [] then Inr s
     else
       let instr = hd (issue_queue s);
           exe_flags = getExeFlags instr
       in
       if RS_full (RS s) \<or> ROB_full (ROB s) then Inr s
       else
         let rs1 = getRs1 instr;
             rs2 = getRs2 instr
         in
         bind_err
           (if use_rs1 exe_flags then
              (if RAT_exists (RAT s) rs1 then
                 (let rob_index = RAT_get (RAT s) rs1 in
                  bind_err (ROB_get_entry (ROB s) rob_index) (\<lambda>entry.
                    if rob_ready entry then Inr (rob_result entry, - 1)
                    else Inr (0, RST s rob_index)))
               else bind_err (at (reg_file s) rs1) (\<lambda>v. Inr (v, - 1)))
            else Inr (0, - 1))
           (\<lambda>(rs1_dat, rs1_rsid).
         bind_err
           (if use_rs2 exe_flags then
              (if RAT_exists (RAT s) rs2 then
                 (let rob_index = RAT_get (RAT s) rs2 in
                  bind_err (ROB_get_entry (ROB s) rob_index) (\<lambda>entry.
                    if rob_ready entry then Inr (rob_result entry, - 1)
                    else Inr (0, RST s rob_index)))
               else bind_err (at (reg_file s) rs2) (\<lambda>v. Inr (v, - 1)))
            else Inr (0, - 1))
           (\<lambda>(rs2_dat, rs2_rsid).
         let (rob_index, rob') = ROB_allocate (ROB s) instr;
             rat' = (if use_rd exe_flags then RAT_set (RAT s) (getRd instr) rob_index
                     else RAT s);
             (rs_index, rs') =
               RS_issue (RS s) rob_index rs1_rsid rs2_rsid rs1_dat rs2_dat instr;
             rst' = (if use_rd exe_flags then (RST s)(rob_index := int rs_index)
                     else RST s)
         in Inr (s\<lparr>issue_queue := tl (issue_queue s), RS := rs', ROB := rob',
                   RAT := rat', RST := rst'\<rparr>))))"

subsection \<open>Core::execute\<close>

text \<open>The three loops of execute, in the order of the source.\<close>

definition execute_units :: "FU list \<Rightarrow> FU list" where
  "execute_units fus = map FU_execute fus"

fun drain_loop :: "FU list \<Rightarrow> cdb \<Rightarrow> FU list \<times> cdb" where
  "drain_loop [] c = ([], c)"
| "drain_loop (fu # fus) c =
     (if FU_done fu \<and> CDB_empty c then
        (let output = FU_get_output fu
         in (FU_clear fu # fus,
             CDB_push c (out_result output) (out_rob_index output) (out_rs_index output)))
      else (let (fus', c') = drain_loop fus c in (fu # fus', c')))"

function schedule_loop :: "ext \<Rightarrow> rs_entry list \<Rightarrow> FU list \<Rightarrow> nat \<Rightarrow> fatal + rs_entry list \<times> FU list" where
  "schedule_loop x rs fus rs_index =
     (if rs_index < RS_size rs then
        (let entry = RS_get_entry rs rs_index in
         if rs_valid entry \<and> \<not> rs_running entry \<and> RS_operands_ready rs rs_index
            \<and> \<not> RS_locked x rs rs_index
         then
           (let fu_type = getFUType (rs_instr entry) in
            case at fus fu_type of
              Inl e \<Rightarrow> Inl e
            | Inr fu \<Rightarrow>
                if \<not> FU_busy fu then
                  Inr (rs[rs_index := entry\<lparr>rs_running := True\<rparr>],
                       fus[fu_type := FU_issue x fu (rs_instr entry) (rs_rob_index entry)
                                        rs_index (rs1_data entry) (rs2_data entry)])
                else schedule_loop x rs fus (rs_index + 1))
         else schedule_loop x rs fus (rs_index + 1))
      else Inr (rs, fus))"
  by pat_completeness auto
termination
  by (relation "measure (\<lambda>(x, rs, fus, rs_index). RS_size rs - rs_index)") auto

definition execute :: "ext \<Rightarrow> core \<Rightarrow> fatal + core" where
  "execute x s =
     (let fus1 = execute_units (FUs s);
          (fus2, cdb') = drain_loop fus1 (CDB s)
      in bind_err (schedule_loop x (RS s) fus2 0) (\<lambda>(rs', fus3).
           Inr (s\<lparr>RS := rs', CDB := cdb', FUs := fus3\<rparr>)))"

subsection \<open>Core::writeback\<close>

definition writeback :: "core \<Rightarrow> fatal + core" where
  "writeback s =
     (if CDB_empty (CDB s) then Inr s
      else
        let msg = CDB_data (CDB s);
            rs1 = map (\<lambda>entry. if rs_valid entry then update_operands entry msg else entry)
                      (RS s)
        in bind_err (RS_release rs1 (cdb_rs_index msg)) (\<lambda>rs2.
           bind_err (ROB_update_msg (ROB s) msg) (\<lambda>rob'.
             Inr (s\<lparr>RS := rs2, ROB := rob', CDB := CDB_pop (CDB s)\<rparr>))))"

subsection \<open>Core::commit\<close>

text \<open>
  The assertion stands after the register write, the clearing of the alias table and
  the pop, and before the increment, as in the source; an abort leaves no state.
\<close>

definition commit :: "core \<Rightarrow> fatal + core" where
  "commit s =
     (if ROB_empty (ROB s) then Inr s
      else
        let head_index = ROB_head_index (ROB s) in
        bind_err (ROB_get_entry (ROB s) head_index) (\<lambda>rob_head.
          if rob_ready rob_head then
            (let instr = rob_instr rob_head;
                 exe_flags = getExeFlags instr
             in
             bind_err
               (if use_rd exe_flags then
                  bind_err (put (reg_file s) (getRd instr) (rob_result rob_head)) (\<lambda>rf.
                    Inr (rf,
                         if RAT_exists (RAT s) (getRd instr)
                            \<and> RAT_get (RAT s) (getRd instr) = head_index
                         then RAT_clear (RAT s) (getRd instr) else RAT s))
                else Inr (reg_file s, RAT s))
               (\<lambda>(rf, rat').
             let rob' = ROB_pop (ROB s) in
             if perf_instrs s \<le> fetched_instrs s then
               Inr (s\<lparr>ROB := rob', RAT := rat', reg_file := rf,
                     perf_instrs := perf_instrs s + 1,
                     exited := (if is_exit exe_flags then True else exited s)\<rparr>)
             else Inl AssertFailed))
          else Inr s))"

section \<open>Auxiliary definitions for the statements\<close>

subsection \<open>Operand resolution as the specification words it\<close>

text \<open>
  Section 4.6, issue: a used source operand is resolved by priority. If the alias table
  maps the register, the producing reorder-buffer entry is read: when ready, its result
  is the operand and nothing is pending (\<open>-1\<close>); otherwise the producer's slot id from
  \<^verbatim>\<open>RST_\<close> is recorded as pending. If the alias table has no mapping, the register file
  is read. This definition follows the specification, not the source; the theorems
  compare the entry that \<^const>\<open>issue\<close> creates with it.
\<close>

definition spec_operand :: "core \<Rightarrow> nat \<Rightarrow> word32 \<times> int" where
  "spec_operand s reg =
     (case RAT s reg of
        Some p \<Rightarrow>
          (if rob_ready (rob_store (ROB s) ! p) then (rob_result (rob_store (ROB s) ! p), - 1)
           else (0, RST s p))
      | None \<Rightarrow> (reg_file s ! reg, - 1))"

text \<open>The reads of \<^const>\<open>spec_operand\<close> are within the reorder buffer and the register file.\<close>

definition operand_in_range :: "core \<Rightarrow> nat \<Rightarrow> bool" where
  "operand_in_range s reg =
     (case RAT s reg of
        Some p \<Rightarrow> p < length (rob_store (ROB s))
      | None \<Rightarrow> reg < length (reg_file s))"

subsection \<open>The two halves of issue, named for the proofs\<close>

text \<open>
  \<open>read_operand\<close> is the block of the source that reads one operand (lines 48 to 59 for
  rs1, 62 to 73 for rs2), and \<open>issued\<close> is the state after lines 75 to 94, given the two
  operands. Lemma \<open>issue_read_operand\<close> shows that \<^const>\<open>issue\<close> is their composition.
\<close>

definition read_operand :: "core \<Rightarrow> bool \<Rightarrow> nat \<Rightarrow> fatal + word32 \<times> int" where
  "read_operand s used reg =
     (if used then
        (if RAT_exists (RAT s) reg then
           (let rob_index = RAT_get (RAT s) reg in
            bind_err (ROB_get_entry (ROB s) rob_index) (\<lambda>entry.
              if rob_ready entry then Inr (rob_result entry, - 1)
              else Inr (0, RST s rob_index)))
         else bind_err (at (reg_file s) reg) (\<lambda>v. Inr (v, - 1)))
      else Inr (0, - 1))"

definition issued :: "core \<Rightarrow> word32 \<times> int \<Rightarrow> word32 \<times> int \<Rightarrow> core" where
  "issued s o1 o2 =
     (let instr = hd (issue_queue s);
          t = ROB_tail_index (ROB s);
          k = RS_free_slot (RS s)
      in s\<lparr>issue_queue := tl (issue_queue s),
           RS := (RS s)[k := \<lparr>rs_valid = True, rs_running = False, rs_rob_index = t,
                              rs1_index = snd o1, rs2_index = snd o2,
                              rs1_data = fst o1, rs2_data = fst o2, rs_instr = instr\<rparr>],
           ROB := (ROB s)\<lparr>rob_store := (rob_store (ROB s))[t :=
                              \<lparr>rob_instr = instr, rob_ready = False, rob_result = 0\<rparr>],
                           rob_count := rob_count (ROB s) + 1\<rparr>,
           RAT := (if use_rd (getExeFlags instr) then (RAT s)(getRd instr \<mapsto> t) else RAT s),
           RST := (if use_rd (getExeFlags instr) then (RST s)(t := int k) else RST s)\<rparr>)"

text \<open>Calling issue \<open>n\<close> times in a row, stopping at the first abort.\<close>

fun issue_repeat :: "nat \<Rightarrow> core \<Rightarrow> fatal + core" where
  "issue_repeat 0 s = Inr s"
| "issue_repeat (Suc n) s = bind_err (issue s) (issue_repeat n)"

subsection \<open>A small machine for the concrete checks\<close>

text \<open>
  Two reservation stations, a reorder buffer of two entries, one unit of latency one
  that adds its operands, four registers. \<open>ex_add_r1\<close> is \<open>r1 := r2 + r3\<close> and
  \<open>ex_add_r2\<close> is \<open>r2 := r1 + r3\<close>.
\<close>

definition ex_nop :: Instr where
  "ex_nop = \<lparr>getRs1 = 0, getRs2 = 0, getRd = 0,
     getExeFlags = \<lparr>use_rs1 = False, use_rs2 = False, use_rd = False, is_exit = False\<rparr>,
     getFUType = 0\<rparr>"

definition ex_add_r1 :: Instr where
  "ex_add_r1 = \<lparr>getRs1 = 2, getRs2 = 3, getRd = 1,
     getExeFlags = \<lparr>use_rs1 = True, use_rs2 = True, use_rd = True, is_exit = False\<rparr>,
     getFUType = 0\<rparr>"

definition ex_add_r2 :: Instr where
  "ex_add_r2 = \<lparr>getRs1 = 1, getRs2 = 3, getRd = 2,
     getExeFlags = \<lparr>use_rs1 = True, use_rs2 = True, use_rd = True, is_exit = False\<rparr>,
     getFUType = 0\<rparr>"

definition ex_slot :: rs_entry where
  "ex_slot = \<lparr>rs_valid = False, rs_running = False, rs_rob_index = 0,
     rs1_index = - 1, rs2_index = - 1, rs1_data = 0, rs2_data = 0, rs_instr = ex_nop\<rparr>"

definition ex_rob_entry :: rob_entry where
  "ex_rob_entry = \<lparr>rob_instr = ex_nop, rob_ready = False, rob_result = 0\<rparr>"

definition ex_unit :: FU where
  "ex_unit = \<lparr>fu_busy = False, fu_countdown = 0,
     fu_output = \<lparr>out_result = 0, out_rob_index = 0, out_rs_index = 0\<rparr>\<rparr>"

definition ex_ext :: ext where
  "ex_ext = \<lparr>latency = (\<lambda>i. 1), compute = (\<lambda>i a b. a + b), locked = (\<lambda>rs k. False)\<rparr>"

definition ex_core :: core where
  "ex_core = \<lparr>issue_queue = [ex_add_r1, ex_add_r2], RS = [ex_slot, ex_slot],
     ROB = \<lparr>rob_store = [ex_rob_entry, ex_rob_entry], rob_head = 0, rob_count = 0\<rparr>,
     RAT = Map.empty, RST = (\<lambda>i. - 1), CDB = None, FUs = [ex_unit],
     reg_file = [0, 0, 5, 7], perf_instrs = 0, fetched_instrs = 2, exited = False\<rparr>"

text \<open>
  \<open>ex_inc_r1\<close> is \<open>r1 := r1 + r3\<close>, an instruction that reads its own destination,
  \<open>ex_li_r3\<close> writes \<open>r3\<close> and uses no source register, and \<open>ex_exit\<close> is an exit
  instruction that uses no register.
\<close>

definition ex_inc_r1 :: Instr where
  "ex_inc_r1 = \<lparr>getRs1 = 1, getRs2 = 3, getRd = 1,
     getExeFlags = \<lparr>use_rs1 = True, use_rs2 = True, use_rd = True, is_exit = False\<rparr>,
     getFUType = 0\<rparr>"

definition ex_li_r3 :: Instr where
  "ex_li_r3 = \<lparr>getRs1 = 0, getRs2 = 0, getRd = 3,
     getExeFlags = \<lparr>use_rs1 = False, use_rs2 = False, use_rd = True, is_exit = False\<rparr>,
     getFUType = 0\<rparr>"

definition ex_exit :: Instr where
  "ex_exit = \<lparr>getRs1 = 0, getRs2 = 0, getRd = 0,
     getExeFlags = \<lparr>use_rs1 = False, use_rs2 = False, use_rd = False, is_exit = True\<rparr>,
     getFUType = 0\<rparr>"

text \<open>The machine with every reservation station taken.\<close>

definition ex_stalled :: core where
  "ex_stalled = ex_core\<lparr>RS := [ex_slot\<lparr>rs_valid := True\<rparr>, ex_slot\<lparr>rs_valid := True\<rparr>]\<rparr>"

text \<open>The machine after the issue of \<open>ex_add_r1\<close>, and after the issue of \<open>ex_add_r2\<close>.\<close>

definition ex_core1 :: core where
  "ex_core1 = ex_core\<lparr>issue_queue := [ex_add_r2],
     RS := [\<lparr>rs_valid = True, rs_running = False, rs_rob_index = 0,
             rs1_index = - 1, rs2_index = - 1, rs1_data = 5, rs2_data = 7,
             rs_instr = ex_add_r1\<rparr>, ex_slot],
     ROB := \<lparr>rob_store = [\<lparr>rob_instr = ex_add_r1, rob_ready = False, rob_result = 0\<rparr>,
                          ex_rob_entry], rob_head = 0, rob_count = 1\<rparr>,
     RAT := [1 \<mapsto> 0], RST := (\<lambda>i. - 1)(0 := 0)\<rparr>"

definition ex_core2 :: core where
  "ex_core2 = ex_core1\<lparr>issue_queue := [],
     RS := [\<lparr>rs_valid = True, rs_running = False, rs_rob_index = 0,
             rs1_index = - 1, rs2_index = - 1, rs1_data = 5, rs2_data = 7,
             rs_instr = ex_add_r1\<rparr>,
            \<lparr>rs_valid = True, rs_running = False, rs_rob_index = 1,
             rs1_index = 0, rs2_index = - 1, rs1_data = 0, rs2_data = 7,
             rs_instr = ex_add_r2\<rparr>],
     ROB := \<lparr>rob_store = [\<lparr>rob_instr = ex_add_r1, rob_ready = False, rob_result = 0\<rparr>,
                          \<lparr>rob_instr = ex_add_r2, rob_ready = False, rob_result = 0\<rparr>],
             rob_head = 0, rob_count = 2\<rparr>,
     RAT := [1 \<mapsto> 0, 2 \<mapsto> 1], RST := (\<lambda>i. - 1)(0 := 0, 1 := 1)\<rparr>"

lemmas ex_defs = ex_nop_def ex_add_r1_def ex_add_r2_def ex_slot_def ex_rob_entry_def
  ex_unit_def ex_ext_def ex_core_def ex_inc_r1_def ex_li_r3_def ex_exit_def

text \<open>
  The first machine with \<open>ex_li_r3\<close> at the front of the queue, and the second with
  \<open>ex_inc_r1\<close> at the front while \<open>ex_add_r1\<close>, the previous writer of \<open>r1\<close>, is in flight.
\<close>

definition ex_core_li :: core where
  "ex_core_li = ex_core\<lparr>issue_queue := [ex_li_r3]\<rparr>"

definition ex_core_inc :: core where
  "ex_core_inc = ex_core1\<lparr>issue_queue := [ex_inc_r1]\<rparr>"

subsection \<open>The successful paths of commit and writeback, named for the proofs\<close>

text \<open>
  \<open>retired\<close> is the state after lines 175 to 199 of commit, \<open>written_back\<close> the state after
  lines 141 to 160 of writeback with the bus message \<open>msg\<close>, and \<open>woken\<close> the body of the
  loop of lines 145 to 150. Lemmas \<open>commit_cases\<close> and \<open>writeback_cases\<close> relate them to
  \<^const>\<open>commit\<close> and \<^const>\<open>writeback\<close>.
\<close>

definition head_instr :: "core \<Rightarrow> Instr" where
  "head_instr s = rob_instr (rob_store (ROB s) ! rob_head (ROB s))"

definition retired :: "core \<Rightarrow> core" where
  "retired s =
     (let h = rob_store (ROB s) ! rob_head (ROB s);
          instr = rob_instr h
      in s\<lparr>ROB := ROB_pop (ROB s),
           RAT := (if use_rd (getExeFlags instr) \<and> RAT s (getRd instr) = Some (rob_head (ROB s))
                   then (RAT s)(getRd instr := None) else RAT s),
           reg_file := (if use_rd (getExeFlags instr)
                        then (reg_file s)[getRd instr := rob_result h] else reg_file s),
           perf_instrs := perf_instrs s + 1,
           exited := (is_exit (getExeFlags instr) \<or> exited s)\<rparr>)"

definition woken :: "cdb_data \<Rightarrow> rs_entry \<Rightarrow> rs_entry" where
  "woken msg entry = (if rs_valid entry then update_operands entry msg else entry)"

definition written_back :: "core \<Rightarrow> cdb_data \<Rightarrow> core" where
  "written_back s msg =
     s\<lparr>RS := (map (woken msg) (RS s))[cdb_rs_index msg :=
              (woken msg (RS s ! cdb_rs_index msg))\<lparr>rs_valid := False\<rparr>],
       ROB := (ROB s)\<lparr>rob_store := (rob_store (ROB s))[cdb_rob_index msg :=
              (rob_store (ROB s) ! cdb_rob_index msg)
                \<lparr>rob_ready := True, rob_result := cdb_result msg\<rparr>]\<rparr>,
       CDB := None\<rparr>"

subsection \<open>The dispatch scan of execute, named for the statements\<close>

text \<open>
  \<open>eligible\<close> is the condition of line 124 on slot \<open>i\<close>; \<open>dispatchable\<close> adds that the slot
  exists and that the unit selected by the instruction's category exists and is not busy
  (lines 125 to 127); \<open>dispatched\<close> is the effect of lines 128 and 129 on the stations
  and the units.
\<close>

definition eligible :: "ext \<Rightarrow> rs_entry list \<Rightarrow> nat \<Rightarrow> bool" where
  "eligible x rs i =
     (rs_valid (rs ! i) \<and> \<not> rs_running (rs ! i) \<and> RS_operands_ready rs i
      \<and> \<not> RS_locked x rs i)"

definition dispatchable :: "ext \<Rightarrow> rs_entry list \<Rightarrow> FU list \<Rightarrow> nat \<Rightarrow> bool" where
  "dispatchable x rs fus i =
     (i < RS_size rs \<and> eligible x rs i
      \<and> getFUType (rs_instr (rs ! i)) < length fus
      \<and> \<not> FU_busy (fus ! getFUType (rs_instr (rs ! i))))"

definition dispatched :: "ext \<Rightarrow> rs_entry list \<Rightarrow> FU list \<Rightarrow> nat \<Rightarrow> rs_entry list \<times> FU list" where
  "dispatched x rs fus k =
     (rs[k := (rs ! k)\<lparr>rs_running := True\<rparr>],
      fus[getFUType (rs_instr (rs ! k)) :=
            FU_issue x (fus ! getFUType (rs_instr (rs ! k))) (rs_instr (rs ! k))
              (rs_rob_index (rs ! k)) k (rs1_data (rs ! k)) (rs2_data (rs ! k))])"

subsection \<open>Runs of the core\<close>

text \<open>
  Modelled from the spec: the driver that calls the stages and the front end that fills
  the issue queue are not in src/ (sections 5 and 6). A run is a sequence of stage
  calls, in any order, that stops at the first abort; the order commit, writeback,
  execute, issue of section 5 is one such run. \<open>Fetch\<close> stands for the front end: it
  puts one decoded instruction at the back of the issue queue and counts it as fetched.
\<close>

datatype action = Issue | Execute | Writeback | Commit | Fetch Instr

fun step :: "ext \<Rightarrow> action \<Rightarrow> core \<Rightarrow> fatal + core" where
  "step x Issue s = issue s"
| "step x Execute s = execute x s"
| "step x Writeback s = writeback s"
| "step x Commit s = commit s"
| "step x (Fetch instr) s =
     Inr (s\<lparr>issue_queue := issue_queue s @ [instr], fetched_instrs := fetched_instrs s + 1\<rparr>)"

fun run :: "ext \<Rightarrow> action list \<Rightarrow> core \<Rightarrow> fatal + core" where
  "run x [] s = Inr s"
| "run x (a # as) s = bind_err (step x a s) (run x as)"

subsection \<open>The in-flight instructions of the reorder buffer\<close>

text \<open>
  \<open>inflight\<close> lists the indices of the occupied slots of the circular buffer from the
  head on, that is from the oldest allocation to the youngest. \<open>youngest_writer r reg\<close>
  is the last of them whose instruction writes \<open>reg\<close>: the most recently issued
  instruction, not yet committed, that writes the register. \<open>rob_ok\<close> says that the head
  and the count lie within the capacity, and \<open>reset\<close> describes a core with an empty
  reorder buffer and an empty alias table.
\<close>

definition inflight :: "rob \<Rightarrow> nat list" where
  "inflight r = map (\<lambda>k. (rob_head r + k) mod length (rob_store r)) [0..<rob_count r]"

definition writes_reg :: "nat \<Rightarrow> rob_entry \<Rightarrow> bool" where
  "writes_reg reg e = (use_rd (getExeFlags (rob_instr e)) \<and> getRd (rob_instr e) = reg)"

definition youngest_writer :: "rob \<Rightarrow> nat \<Rightarrow> nat option" where
  "youngest_writer r reg =
     List.find (\<lambda>i. writes_reg reg (rob_store r ! i)) (rev (inflight r))"

definition rob_ok :: "rob \<Rightarrow> bool" where
  "rob_ok r = (0 < length (rob_store r) \<and> rob_head r < length (rob_store r)
               \<and> rob_count r \<le> length (rob_store r))"

definition rat_inv :: "core \<Rightarrow> bool" where
  "rat_inv s = (rob_ok (ROB s) \<and> (\<forall>reg. RAT s reg = youngest_writer (ROB s) reg))"

definition reset :: "core \<Rightarrow> bool" where
  "reset s = (ROB_empty (ROB s) \<and> RAT s = Map.empty \<and> rob_ok (ROB s))"

subsection \<open>The instruction counters\<close>

text \<open>
  A core is \<open>accounted\<close> when every instruction it holds has been counted as fetched:
  the instructions committed, those in flight in the reorder buffer and those waiting
  in the issue queue are together at most the instructions fetched. A core that has
  fetched what its issue queue holds and nothing else, such as \<open>ex_core\<close>, is accounted.
\<close>

definition accounted :: "core \<Rightarrow> bool" where
  "accounted s =
     (perf_instrs s + rob_count (ROB s) + length (issue_queue s) \<le> fetched_instrs s)"

subsection \<open>The example continued\<close>

text \<open>
  From \<open>ex_core2\<close>: execute dispatches \<open>ex_add_r1\<close> (\<open>ex_core3\<close>), the next execute drains
  its result \<open>12\<close> onto the bus (\<open>ex_core4\<close>), writeback broadcasts it (\<open>ex_core5\<close>) and
  commit retires \<open>ex_add_r1\<close> (\<open>ex_core6\<close>).
\<close>

definition ex_core3 :: core where
  "ex_core3 = ex_core2\<lparr>
     RS := [\<lparr>rs_valid = True, rs_running = True, rs_rob_index = 0,
             rs1_index = - 1, rs2_index = - 1, rs1_data = 5, rs2_data = 7,
             rs_instr = ex_add_r1\<rparr>,
            \<lparr>rs_valid = True, rs_running = False, rs_rob_index = 1,
             rs1_index = 0, rs2_index = - 1, rs1_data = 0, rs2_data = 7,
             rs_instr = ex_add_r2\<rparr>],
     FUs := [\<lparr>fu_busy = True, fu_countdown = 1,
              fu_output = \<lparr>out_result = 12, out_rob_index = 0, out_rs_index = 0\<rparr>\<rparr>]\<rparr>"

definition ex_core4 :: core where
  "ex_core4 = ex_core3\<lparr>
     CDB := Some \<lparr>cdb_result = 12, cdb_rob_index = 0, cdb_rs_index = 0\<rparr>,
     FUs := [\<lparr>fu_busy = False, fu_countdown = 0,
              fu_output = \<lparr>out_result = 12, out_rob_index = 0, out_rs_index = 0\<rparr>\<rparr>]\<rparr>"

definition ex_core5 :: core where
  "ex_core5 = ex_core4\<lparr>
     RS := [\<lparr>rs_valid = False, rs_running = True, rs_rob_index = 0,
             rs1_index = - 1, rs2_index = - 1, rs1_data = 5, rs2_data = 7,
             rs_instr = ex_add_r1\<rparr>,
            \<lparr>rs_valid = True, rs_running = False, rs_rob_index = 1,
             rs1_index = - 1, rs2_index = - 1, rs1_data = 12, rs2_data = 7,
             rs_instr = ex_add_r2\<rparr>],
     ROB := \<lparr>rob_store = [\<lparr>rob_instr = ex_add_r1, rob_ready = True, rob_result = 12\<rparr>,
                          \<lparr>rob_instr = ex_add_r2, rob_ready = False, rob_result = 0\<rparr>],
             rob_head = 0, rob_count = 2\<rparr>,
     CDB := None\<rparr>"

definition ex_core6 :: core where
  "ex_core6 = ex_core5\<lparr>
     ROB := \<lparr>rob_store = [\<lparr>rob_instr = ex_add_r1, rob_ready = True, rob_result = 12\<rparr>,
                          \<lparr>rob_instr = ex_add_r2, rob_ready = False, rob_result = 0\<rparr>],
             rob_head = 1, rob_count = 1\<rparr>,
     RAT := [2 \<mapsto> 1], reg_file := [0, 12, 5, 7], perf_instrs := 1\<rparr>"

lemmas ex_states = ex_core1_def ex_core2_def ex_core3_def ex_core4_def ex_core5_def ex_core6_def

text \<open>
  \<open>ex_core2\<close> with both stations ready, and \<open>ex_core3\<close> with the bus occupied, each
  with the state execute leaves it in.
\<close>

definition ex_core_both :: core where
  "ex_core_both = ex_core2\<lparr>
     RS := [\<lparr>rs_valid = True, rs_running = False, rs_rob_index = 0,
             rs1_index = - 1, rs2_index = - 1, rs1_data = 5, rs2_data = 7,
             rs_instr = ex_add_r1\<rparr>,
            \<lparr>rs_valid = True, rs_running = False, rs_rob_index = 1,
             rs1_index = - 1, rs2_index = - 1, rs1_data = 12, rs2_data = 7,
             rs_instr = ex_add_r2\<rparr>]\<rparr>"

definition ex_core_both1 :: core where
  "ex_core_both1 = ex_core_both\<lparr>
     RS := [\<lparr>rs_valid = True, rs_running = True, rs_rob_index = 0,
             rs1_index = - 1, rs2_index = - 1, rs1_data = 5, rs2_data = 7,
             rs_instr = ex_add_r1\<rparr>,
            \<lparr>rs_valid = True, rs_running = False, rs_rob_index = 1,
             rs1_index = - 1, rs2_index = - 1, rs1_data = 12, rs2_data = 7,
             rs_instr = ex_add_r2\<rparr>],
     FUs := [\<lparr>fu_busy = True, fu_countdown = 1,
              fu_output = \<lparr>out_result = 12, out_rob_index = 0, out_rs_index = 0\<rparr>\<rparr>]\<rparr>"

definition ex_core_occupied :: core where
  "ex_core_occupied =
     ex_core3\<lparr>CDB := Some \<lparr>cdb_result = 1, cdb_rob_index = 1, cdb_rs_index = 1\<rparr>\<rparr>"

definition ex_core_occupied1 :: core where
  "ex_core_occupied1 = ex_core_occupied\<lparr>
     FUs := [\<lparr>fu_busy = True, fu_countdown = 0,
              fu_output = \<lparr>out_result = 12, out_rob_index = 0, out_rs_index = 0\<rparr>\<rparr>]\<rparr>"

text \<open>
  An exit instruction through issue, execute, writeback (\<open>ex_exit_wb\<close>) and commit
  (\<open>ex_exit_done\<close>).
\<close>

definition ex_exit_start :: core where
  "ex_exit_start = ex_core\<lparr>issue_queue := [ex_exit]\<rparr>"

definition ex_exit_wb :: core where
  "ex_exit_wb = ex_core\<lparr>issue_queue := [],
     RS := [\<lparr>rs_valid = False, rs_running = True, rs_rob_index = 0,
             rs1_index = - 1, rs2_index = - 1, rs1_data = 0, rs2_data = 0,
             rs_instr = ex_exit\<rparr>, ex_slot],
     ROB := \<lparr>rob_store = [\<lparr>rob_instr = ex_exit, rob_ready = True, rob_result = 0\<rparr>,
                          ex_rob_entry], rob_head = 0, rob_count = 1\<rparr>\<rparr>"

definition ex_exit_done :: core where
  "ex_exit_done = ex_exit_wb\<lparr>
     ROB := \<lparr>rob_store = [\<lparr>rob_instr = ex_exit, rob_ready = True, rob_result = 0\<rparr>,
                          ex_rob_entry], rob_head = 1, rob_count = 0\<rparr>,
     perf_instrs := 1, exited := True\<rparr>"

text \<open>
  Two writers of \<open>r1\<close> in flight, \<open>ex_add_r1\<close> then \<open>ex_inc_r1\<close>; \<open>ex_waw_end\<close> is the state
  after the older one has committed.
\<close>

definition ex_waw :: core where
  "ex_waw = ex_core\<lparr>issue_queue := [ex_add_r1, ex_inc_r1]\<rparr>"

definition ex_waw_end :: core where
  "ex_waw_end = ex_core\<lparr>issue_queue := [],
     RS := [\<lparr>rs_valid = False, rs_running = True, rs_rob_index = 0,
             rs1_index = - 1, rs2_index = - 1, rs1_data = 5, rs2_data = 7,
             rs_instr = ex_add_r1\<rparr>,
            \<lparr>rs_valid = True, rs_running = False, rs_rob_index = 1,
             rs1_index = - 1, rs2_index = - 1, rs1_data = 12, rs2_data = 7,
             rs_instr = ex_inc_r1\<rparr>],
     ROB := \<lparr>rob_store = [\<lparr>rob_instr = ex_add_r1, rob_ready = True, rob_result = 12\<rparr>,
                          \<lparr>rob_instr = ex_inc_r1, rob_ready = False, rob_result = 0\<rparr>],
             rob_head = 1, rob_count = 1\<rparr>,
     RAT := [1 \<mapsto> 1], RST := (\<lambda>i. - 1)(0 := 0, 1 := 1),
     FUs := [\<lparr>fu_busy = False, fu_countdown = 0,
              fu_output = \<lparr>out_result = 12, out_rob_index = 0, out_rs_index = 0\<rparr>\<rparr>],
     reg_file := [0, 12, 5, 7], perf_instrs := 1\<rparr>"

section \<open>Properties of issue\<close>

lemma bind_err_Inl [simp]: "bind_err (Inl e) f = Inl e"
  by (simp add: bind_err_def)

lemma bind_err_Inr [simp]: "bind_err (Inr v) f = f v"
  by (simp add: bind_err_def)

lemma bind_err_eq_Inr: "bind_err m f = Inr y \<longleftrightarrow> (\<exists>v. m = Inr v \<and> f v = Inr y)"
  by (cases m) simp_all

lemma at_eq_Inr: "at xs i = Inr v \<longleftrightarrow> i < length xs \<and> v = xs ! i"
  by (auto simp: at_def)

lemma read_operand_eq_Inr:
  "read_operand s used reg = Inr v \<longleftrightarrow>
     (if used then operand_in_range s reg \<and> v = spec_operand s reg else v = (0, - 1))"
  by (auto simp: read_operand_def operand_in_range_def spec_operand_def RAT_exists_def
        RAT_get_def ROB_get_entry_def at_def Let_def split: option.splits)

lemma issue_read_operand:
  "issue s =
    (if issue_queue s = [] \<or> RS_full (RS s) \<or> ROB_full (ROB s) then Inr s
     else bind_err (read_operand s (use_rs1 (getExeFlags (hd (issue_queue s))))
                      (getRs1 (hd (issue_queue s)))) (\<lambda>o1.
          bind_err (read_operand s (use_rs2 (getExeFlags (hd (issue_queue s))))
                      (getRs2 (hd (issue_queue s)))) (\<lambda>o2.
          Inr (issued s o1 o2))))"
  unfolding issue_def read_operand_def issued_def Let_def ROB_allocate_def RS_issue_def RAT_set_def
  by (auto simp: bind_err_def split: sum.splits prod.splits)

lemma RS_free_slot_free:
  "\<not> RS_full rs \<Longrightarrow> RS_free_slot rs < length rs \<and> \<not> rs_valid (rs ! RS_free_slot rs)"
  by (induction rs) (auto simp: RS_full_def)

lemma issue_Inr_proceeds:
  assumes "issue s = Inr s'" and "issue_queue s \<noteq> []"
    and "\<not> RS_full (RS s)" and "\<not> ROB_full (ROB s)"
  shows "\<exists>o1 o2.
     read_operand s (use_rs1 (getExeFlags (hd (issue_queue s)))) (getRs1 (hd (issue_queue s))) = Inr o1
   \<and> read_operand s (use_rs2 (getExeFlags (hd (issue_queue s)))) (getRs2 (hd (issue_queue s))) = Inr o2
   \<and> s' = issued s o1 o2"
  using assms by (auto simp: issue_read_operand bind_err_eq_Inr)

lemma issued_entry:
  assumes "\<not> RS_full (RS s)"
  shows "RS (issued s o1 o2) ! RS_free_slot (RS s) =
     \<lparr>rs_valid = True, rs_running = False, rs_rob_index = ROB_tail_index (ROB s),
      rs1_index = snd o1, rs2_index = snd o2, rs1_data = fst o1, rs2_data = fst o2,
      rs_instr = hd (issue_queue s)\<rparr>"
  using RS_free_slot_free [OF assms] by (simp add: issued_def Let_def)

text \<open>
  What a proceeding issue creates: the two operands as read, the next state, and the
  entry written into the free slot.
\<close>

lemma issue_created_entry:
  assumes "issue s = Inr s'" and "issue_queue s \<noteq> []"
    and "\<not> RS_full (RS s)" and "\<not> ROB_full (ROB s)"
  shows "\<exists>o1 o2.
     (if use_rs1 (getExeFlags (hd (issue_queue s)))
      then operand_in_range s (getRs1 (hd (issue_queue s)))
           \<and> o1 = spec_operand s (getRs1 (hd (issue_queue s)))
      else o1 = (0, - 1))
   \<and> (if use_rs2 (getExeFlags (hd (issue_queue s)))
      then operand_in_range s (getRs2 (hd (issue_queue s)))
           \<and> o2 = spec_operand s (getRs2 (hd (issue_queue s)))
      else o2 = (0, - 1))
   \<and> s' = issued s o1 o2
   \<and> RS_free_slot (RS s) < length (RS s)
   \<and> RS s' ! RS_free_slot (RS s) =
     \<lparr>rs_valid = True, rs_running = False, rs_rob_index = ROB_tail_index (ROB s),
      rs1_index = snd o1, rs2_index = snd o2, rs1_data = fst o1, rs2_data = fst o2,
      rs_instr = hd (issue_queue s)\<rparr>"
proof -
  obtain o1 o2 where
    r1: "read_operand s (use_rs1 (getExeFlags (hd (issue_queue s)))) (getRs1 (hd (issue_queue s))) = Inr o1"
    and r2: "read_operand s (use_rs2 (getExeFlags (hd (issue_queue s)))) (getRs2 (hd (issue_queue s))) = Inr o2"
    and s': "s' = issued s o1 o2"
    using issue_Inr_proceeds [OF assms] by blast
  show ?thesis
    using r1 r2 s' issued_entry [OF assms(3), of o1 o2] RS_free_slot_free [OF assms(3)]
    by (intro exI [of _ o1] exI [of _ o2]) (simp add: read_operand_eq_Inr)
qed

lemma issue_stall:
  assumes "RS_full (RS s) \<or> ROB_full (ROB s)"
  shows "issue s = Inr s"
  using assms by (auto simp: issue_read_operand)

lemma issue_repeat_stall:
  assumes "RS_full (RS s) \<or> ROB_full (ROB s)"
  shows "issue_repeat n s = Inr s"
  by (induction n) (simp_all add: issue_stall [OF assms])

lemmas issue_eval = issue_read_operand read_operand_def issued_def Let_def RS_full_def
  ROB_full_def ROB_tail_index_def ROB_get_entry_def RAT_exists_def RAT_get_def at_def

lemma ex_issue_1: "issue ex_core = Inr ex_core1"
  by (simp add: issue_eval ex_core1_def ex_defs)

lemma ex_issue_2: "issue ex_core1 = Inr ex_core2"
  by (simp add: issue_eval ex_core1_def ex_core2_def ex_defs)

subsection \<open>Structural-hazard stall\<close>

text \<open>
  Claim C6. When the issue queue is not empty and the reservation stations or the
  reorder buffer are full, issue returns the state it was given: the issue queue (with
  the stalled instruction still at its front), the reorder buffer, the reservation
  stations, the alias table, the slot table and the register file are unchanged, and so
  they are after any number \<open>n\<close> of repeated calls.
\<close>

theorem issue_stall_no_effect:
  assumes "issue_queue s \<noteq> []" and "RS_full (RS s) \<or> ROB_full (ROB s)"
  shows "issue s = Inr s \<and> issue_repeat n s = Inr s"
  using assms(2) by (simp add: issue_stall issue_repeat_stall)

theorem issue_stall_no_effect_witness:
  "issue_queue ex_stalled \<noteq> [] \<and> RS_full (RS ex_stalled) \<and> \<not> ROB_full (ROB ex_stalled)
   \<and> issue ex_stalled = Inr ex_stalled \<and> issue_repeat 3 ex_stalled = Inr ex_stalled"
  using issue_stall_no_effect [of ex_stalled 3]
  by (simp add: ex_stalled_def ex_defs RS_full_def ROB_full_def)

subsection \<open>Operand resolution\<close>

text \<open>
  Claim C2. When issue proceeds, the entry \<open>e\<close> it writes into the free slot holds, for
  each source operand the instruction uses: the result of the producing reorder-buffer
  entry with no pending producer (\<open>-1\<close>) when the alias table maps the register to an
  entry \<open>p\<close> that is ready; the slot id \<open>RST p\<close> as pending producer when that entry is not
  ready; and the value of the register file with no pending producer when the alias
  table has no mapping. All of these are read in the state before the call.
\<close>

theorem issue_operand_priority:
  fixes s s' :: core and p :: nat
  defines "instr \<equiv> hd (issue_queue s)"
    and "e \<equiv> RS s' ! RS_free_slot (RS s)"
    and "store \<equiv> rob_store (ROB s)"
  assumes "issue s = Inr s'" and "issue_queue s \<noteq> []"
    and "\<not> RS_full (RS s)" and "\<not> ROB_full (ROB s)"
  shows "(use_rs1 (getExeFlags instr) \<and> RAT s (getRs1 instr) = Some p \<and> rob_ready (store ! p) \<longrightarrow>
            p < length store \<and> rs1_data e = rob_result (store ! p) \<and> rs1_index e = - 1)
       \<and> (use_rs1 (getExeFlags instr) \<and> RAT s (getRs1 instr) = Some p \<and> \<not> rob_ready (store ! p) \<longrightarrow>
            p < length store \<and> rs1_index e = RST s p \<and> rs1_data e = 0)
       \<and> (use_rs1 (getExeFlags instr) \<and> RAT s (getRs1 instr) = None \<longrightarrow>
            getRs1 instr < length (reg_file s)
            \<and> rs1_data e = reg_file s ! getRs1 instr \<and> rs1_index e = - 1)
       \<and> (use_rs2 (getExeFlags instr) \<and> RAT s (getRs2 instr) = Some p \<and> rob_ready (store ! p) \<longrightarrow>
            p < length store \<and> rs2_data e = rob_result (store ! p) \<and> rs2_index e = - 1)
       \<and> (use_rs2 (getExeFlags instr) \<and> RAT s (getRs2 instr) = Some p \<and> \<not> rob_ready (store ! p) \<longrightarrow>
            p < length store \<and> rs2_index e = RST s p \<and> rs2_data e = 0)
       \<and> (use_rs2 (getExeFlags instr) \<and> RAT s (getRs2 instr) = None \<longrightarrow>
            getRs2 instr < length (reg_file s)
            \<and> rs2_data e = reg_file s ! getRs2 instr \<and> rs2_index e = - 1)
       \<and> RS_free_slot (RS s) < RS_size (RS s) \<and> \<not> rs_valid (RS s ! RS_free_slot (RS s))
       \<and> rs_valid e \<and> \<not> rs_running e \<and> rs_instr e = instr"
proof -
  obtain o1 o2 where
    o1: "if use_rs1 (getExeFlags instr)
      then operand_in_range s (getRs1 instr) \<and> o1 = spec_operand s (getRs1 instr)
      else o1 = (0, - 1)"
    and o2: "if use_rs2 (getExeFlags instr)
      then operand_in_range s (getRs2 instr) \<and> o2 = spec_operand s (getRs2 instr)
      else o2 = (0, - 1)"
    and e: "e = \<lparr>rs_valid = True, rs_running = False, rs_rob_index = ROB_tail_index (ROB s),
      rs1_index = snd o1, rs2_index = snd o2, rs1_data = fst o1, rs2_data = fst o2,
      rs_instr = instr\<rparr>"
    using issue_created_entry [OF assms(4-7)] unfolding instr_def e_def by blast
  have k: "RS_free_slot (RS s) < RS_size (RS s) \<and> \<not> rs_valid (RS s ! RS_free_slot (RS s))"
    using RS_free_slot_free [OF assms(6)] by (simp add: RS_size_def)
  have c1: "use_rs1 (getExeFlags instr) \<Longrightarrow>
      operand_in_range s (getRs1 instr) \<and> (rs1_data e, rs1_index e) = spec_operand s (getRs1 instr)"
    using o1 by (simp add: e)
  have c2: "use_rs2 (getExeFlags instr) \<Longrightarrow>
      operand_in_range s (getRs2 instr) \<and> (rs2_data e, rs2_index e) = spec_operand s (getRs2 instr)"
    using o2 by (simp add: e)
  show ?thesis
    using c1 c2 k
    by (auto simp: spec_operand_def operand_in_range_def store_def e)
qed

theorem issue_operand_priority_witness:
  "issue ex_core1 = Inr ex_core2 \<and> issue_queue ex_core1 \<noteq> []
   \<and> \<not> RS_full (RS ex_core1) \<and> \<not> ROB_full (ROB ex_core1)
   \<and> RAT ex_core1 (getRs1 ex_add_r2) = Some 0
   \<and> \<not> rob_ready (rob_store (ROB ex_core1) ! 0)
   \<and> rs1_index (RS ex_core2 ! 1) = RST ex_core1 0 \<and> rs1_data (RS ex_core2 ! 1) = 0
   \<and> RAT ex_core1 (getRs2 ex_add_r2) = None
   \<and> rs2_data (RS ex_core2 ! 1) = reg_file ex_core1 ! 3 \<and> rs2_index (RS ex_core2 ! 1) = - 1"
  using issue_operand_priority [of ex_core1 ex_core2 0] ex_issue_2
  by (simp add: ex_core1_def ex_core2_def ex_defs RS_full_def ROB_full_def)

subsection \<open>Unused source operands\<close>

text \<open>
  Claim C10. When issue proceeds with an instruction whose flag \<open>use_rs1\<close> is false, the
  entry \<open>e\<close> it creates has the producer id \<open>-1\<close> and the data \<open>0\<close> for the first operand;
  \<open>operands_ready\<close> of the new slot is then decided by the second operand alone, and no
  broadcast \<open>msg\<close> changes the first operand. The same holds for \<open>use_rs2\<close> and the second
  operand, and an instruction that uses neither source is ready as soon as it is issued.
\<close>

theorem issue_unused_operand_resolved:
  fixes s s' :: core and msg :: cdb_data
  defines "instr \<equiv> hd (issue_queue s)"
    and "k \<equiv> RS_free_slot (RS s)"
    and "e \<equiv> RS s' ! RS_free_slot (RS s)"
  assumes "issue s = Inr s'" and "issue_queue s \<noteq> []"
    and "\<not> RS_full (RS s)" and "\<not> ROB_full (ROB s)"
  shows "(\<not> use_rs1 (getExeFlags instr) \<longrightarrow>
            rs1_index e = - 1 \<and> rs1_data e = 0
          \<and> RS_operands_ready (RS s') k = (rs2_index e = - 1)
          \<and> rs1_index (update_operands e msg) = - 1
          \<and> rs1_data (update_operands e msg) = 0)
       \<and> (\<not> use_rs2 (getExeFlags instr) \<longrightarrow>
            rs2_index e = - 1 \<and> rs2_data e = 0
          \<and> RS_operands_ready (RS s') k = (rs1_index e = - 1)
          \<and> rs2_index (update_operands e msg) = - 1
          \<and> rs2_data (update_operands e msg) = 0)
       \<and> (\<not> use_rs1 (getExeFlags instr) \<and> \<not> use_rs2 (getExeFlags instr) \<longrightarrow>
            RS_operands_ready (RS s') k)
       \<and> k < RS_size (RS s') \<and> rs_valid e \<and> rs_instr e = instr"
proof -
  obtain o1 o2 where
    o1: "if use_rs1 (getExeFlags instr)
      then operand_in_range s (getRs1 instr) \<and> o1 = spec_operand s (getRs1 instr)
      else o1 = (0, - 1)"
    and o2: "if use_rs2 (getExeFlags instr)
      then operand_in_range s (getRs2 instr) \<and> o2 = spec_operand s (getRs2 instr)
      else o2 = (0, - 1)"
    and s': "s' = issued s o1 o2"
    and e: "e = \<lparr>rs_valid = True, rs_running = False, rs_rob_index = ROB_tail_index (ROB s),
      rs1_index = snd o1, rs2_index = snd o2, rs1_data = fst o1, rs2_data = fst o2,
      rs_instr = instr\<rparr>"
    using issue_created_entry [OF assms(4-7)] unfolding instr_def e_def by blast
  have len: "k < RS_size (RS s')"
    using RS_free_slot_free [OF assms(6)] by (simp add: s' issued_def Let_def RS_size_def k_def)
  have e': "RS s' ! k = e"
    by (simp add: e_def k_def)
  have u1: "\<not> use_rs1 (getExeFlags instr) \<Longrightarrow> o1 = (0, - 1)"
    using o1 by simp
  have u2: "\<not> use_rs2 (getExeFlags instr) \<Longrightarrow> o2 = (0, - 1)"
    using o2 by simp
  show ?thesis
    using len u1 u2
    by (auto simp: RS_operands_ready_def e' e update_operands_def Let_def)
qed

theorem issue_unused_operand_resolved_witness:
  "issue ex_core_li = Inr (issued ex_core_li (0, - 1) (0, - 1))
   \<and> issue_queue ex_core_li \<noteq> [] \<and> \<not> RS_full (RS ex_core_li) \<and> \<not> ROB_full (ROB ex_core_li)
   \<and> \<not> use_rs1 (getExeFlags ex_li_r3) \<and> \<not> use_rs2 (getExeFlags ex_li_r3)
   \<and> rs1_index (RS (issued ex_core_li (0, - 1) (0, - 1)) ! 0) = - 1
   \<and> rs1_data (RS (issued ex_core_li (0, - 1) (0, - 1)) ! 0) = 0
   \<and> rs2_index (RS (issued ex_core_li (0, - 1) (0, - 1)) ! 0) = - 1
   \<and> rs2_data (RS (issued ex_core_li (0, - 1) (0, - 1)) ! 0) = 0
   \<and> RS_operands_ready (RS (issued ex_core_li (0, - 1) (0, - 1))) 0
   \<and> rs1_data (update_operands (RS (issued ex_core_li (0, - 1) (0, - 1)) ! 0)
         \<lparr>cdb_result = 9, cdb_rob_index = 0, cdb_rs_index = 0\<rparr>) = 0"
proof -
  have run: "issue ex_core_li = Inr (issued ex_core_li (0, - 1) (0, - 1))"
    by (simp add: issue_read_operand read_operand_def RS_full_def ROB_full_def
          ex_core_li_def ex_defs)
  have pre: "issue_queue ex_core_li \<noteq> [] \<and> \<not> RS_full (RS ex_core_li)
      \<and> \<not> ROB_full (ROB ex_core_li) \<and> RS_free_slot (RS ex_core_li) = 0
      \<and> hd (issue_queue ex_core_li) = ex_li_r3
      \<and> \<not> use_rs1 (getExeFlags ex_li_r3) \<and> \<not> use_rs2 (getExeFlags ex_li_r3)"
    by (simp add: RS_full_def ROB_full_def ex_core_li_def ex_defs)
  show ?thesis
    using issue_unused_operand_resolved
            [of ex_core_li "issued ex_core_li (0, - 1) (0, - 1)"
               "\<lparr>cdb_result = 9, cdb_rob_index = 0, cdb_rs_index = 0\<rparr>"] run pre
    by simp
qed

subsection \<open>Reading the sources before the rename\<close>

text \<open>
  Claim C9. When issue proceeds with an instruction that writes a register, a source
  operand whose register is the destination itself is resolved in the state before the
  call: against the alias table, the reorder buffer and the slot table as they were, or
  the register file when no producer was mapped. Only afterwards does the alias table
  map the destination to the entry the call allocates (the old tail of the reorder
  buffer), whose slot the table \<open>RST\<close> then names.
\<close>

theorem issue_reads_before_rename:
  fixes s s' :: core
  defines "instr \<equiv> hd (issue_queue s)"
    and "e \<equiv> RS s' ! RS_free_slot (RS s)"
  assumes "issue s = Inr s'" and "issue_queue s \<noteq> []"
    and "\<not> RS_full (RS s)" and "\<not> ROB_full (ROB s)"
    and "use_rd (getExeFlags instr)"
  shows "(use_rs1 (getExeFlags instr) \<and> getRs1 instr = getRd instr \<longrightarrow>
            operand_in_range s (getRd instr)
            \<and> (rs1_data e, rs1_index e) = spec_operand s (getRd instr))
       \<and> (use_rs2 (getExeFlags instr) \<and> getRs2 instr = getRd instr \<longrightarrow>
            operand_in_range s (getRd instr)
            \<and> (rs2_data e, rs2_index e) = spec_operand s (getRd instr))
       \<and> RAT s' (getRd instr) = Some (ROB_tail_index (ROB s))
       \<and> rs_rob_index e = ROB_tail_index (ROB s)
       \<and> RST s' (ROB_tail_index (ROB s)) = int (RS_free_slot (RS s))"
proof -
  obtain o1 o2 where
    o1: "if use_rs1 (getExeFlags instr)
      then operand_in_range s (getRs1 instr) \<and> o1 = spec_operand s (getRs1 instr)
      else o1 = (0, - 1)"
    and o2: "if use_rs2 (getExeFlags instr)
      then operand_in_range s (getRs2 instr) \<and> o2 = spec_operand s (getRs2 instr)
      else o2 = (0, - 1)"
    and s': "s' = issued s o1 o2"
    and e: "e = \<lparr>rs_valid = True, rs_running = False, rs_rob_index = ROB_tail_index (ROB s),
      rs1_index = snd o1, rs2_index = snd o2, rs1_data = fst o1, rs2_data = fst o2,
      rs_instr = instr\<rparr>"
    using issue_created_entry [OF assms(3-6)] unfolding instr_def e_def by blast
  have rat: "RAT s' (getRd instr) = Some (ROB_tail_index (ROB s))"
    and rst: "RST s' (ROB_tail_index (ROB s)) = int (RS_free_slot (RS s))"
    using assms(7) by (simp_all add: s' issued_def Let_def instr_def)
  show ?thesis
    using o1 o2 rat rst by (auto simp: e)
qed

theorem issue_reads_before_rename_witness:
  "issue ex_core_inc = Inr (issued ex_core_inc (0, 0) (7, - 1))
   \<and> issue_queue ex_core_inc \<noteq> [] \<and> \<not> RS_full (RS ex_core_inc)
   \<and> \<not> ROB_full (ROB ex_core_inc) \<and> use_rd (getExeFlags ex_inc_r1)
   \<and> use_rs1 (getExeFlags ex_inc_r1) \<and> getRs1 ex_inc_r1 = getRd ex_inc_r1
   \<and> RAT ex_core_inc 1 = Some 0
   \<and> spec_operand ex_core_inc 1 = (0, 0)
   \<and> rs1_data (RS (issued ex_core_inc (0, 0) (7, - 1)) ! 1) = 0
   \<and> rs1_index (RS (issued ex_core_inc (0, 0) (7, - 1)) ! 1) = 0
   \<and> RAT (issued ex_core_inc (0, 0) (7, - 1)) 1 = Some 1
   \<and> RST (issued ex_core_inc (0, 0) (7, - 1)) 1 = 1"
proof -
  have run: "issue ex_core_inc = Inr (issued ex_core_inc (0, 0) (7, - 1))"
    by (simp add: issue_read_operand read_operand_def RS_full_def ROB_full_def
          ROB_get_entry_def RAT_exists_def RAT_get_def at_def
          ex_core_inc_def ex_core1_def ex_defs)
  have pre: "issue_queue ex_core_inc \<noteq> [] \<and> \<not> RS_full (RS ex_core_inc)
      \<and> \<not> ROB_full (ROB ex_core_inc) \<and> RS_free_slot (RS ex_core_inc) = 1
      \<and> ROB_tail_index (ROB ex_core_inc) = 1
      \<and> hd (issue_queue ex_core_inc) = ex_inc_r1 \<and> use_rd (getExeFlags ex_inc_r1)
      \<and> use_rs1 (getExeFlags ex_inc_r1) \<and> getRs1 ex_inc_r1 = 1 \<and> getRd ex_inc_r1 = 1
      \<and> RAT ex_core_inc 1 = Some 0 \<and> spec_operand ex_core_inc 1 = (0, 0)"
    by (simp add: RS_full_def ROB_full_def ROB_tail_index_def spec_operand_def
          ex_core_inc_def ex_core1_def ex_defs)
  show ?thesis
    using issue_reads_before_rename [of ex_core_inc "issued ex_core_inc (0, 0) (7, - 1)"]
      run pre
    by simp
qed

section \<open>The stages as case distinctions\<close>

lemma commit_cases:
  "commit s =
     (if ROB_empty (ROB s) then Inr s
      else if \<not> rob_head (ROB s) < length (rob_store (ROB s)) then Inl OutOfRange
      else if \<not> rob_ready (rob_store (ROB s) ! rob_head (ROB s)) then Inr s
      else if use_rd (getExeFlags (head_instr s))
              \<and> \<not> getRd (head_instr s) < length (reg_file s) then Inl OutOfRange
      else if \<not> perf_instrs s \<le> fetched_instrs s then Inl AssertFailed
      else Inr (retired s))"
  unfolding commit_def retired_def head_instr_def Let_def ROB_get_entry_def ROB_head_index_def
    RAT_exists_def RAT_get_def RAT_clear_def put_def at_def
  by (auto simp: bind_err_def split: sum.splits prod.splits)

lemma writeback_cases:
  "writeback s =
     (case CDB s of
        None \<Rightarrow> Inr s
      | Some msg \<Rightarrow>
          if \<not> cdb_rs_index msg < length (RS s) then Inl OutOfRange
          else if \<not> cdb_rob_index msg < length (rob_store (ROB s)) then Inl OutOfRange
          else Inr (written_back s msg))"
proof (cases "CDB s")
  case None
  then show ?thesis by (simp add: writeback_def CDB_empty_def)
next
  case (Some msg)
  have w: "(\<lambda>entry. if rs_valid entry then update_operands entry msg else entry) = woken msg"
    by (simp add: woken_def fun_eq_iff)
  show ?thesis
    by (simp add: Some writeback_def written_back_def w Let_def RS_release_def
          ROB_update_msg_def CDB_empty_def CDB_data_def CDB_pop_def at_def)
qed

declare schedule_loop.simps [simp del]

lemma schedule_loop_step:
  "schedule_loop x rs fus i =
     (if \<not> i < RS_size rs then Inr (rs, fus)
      else if \<not> eligible x rs i then schedule_loop x rs fus (i + 1)
      else if \<not> getFUType (rs_instr (rs ! i)) < length fus then Inl OutOfRange
      else if FU_busy (fus ! getFUType (rs_instr (rs ! i))) then schedule_loop x rs fus (i + 1)
      else Inr (dispatched x rs fus i))"
  by (subst schedule_loop.simps)
     (simp add: eligible_def dispatched_def RS_get_entry_def Let_def at_def)

text \<open>
  A scan that returns either finds no dispatchable slot from \<open>i\<close> on and changes nothing,
  or dispatches the first dispatchable slot from \<open>i\<close> on.
\<close>

lemma schedule_loop_Inr:
  assumes "schedule_loop x rs fus i = Inr r"
  shows "(r = (rs, fus) \<and> (\<forall>j. i \<le> j \<longrightarrow> \<not> dispatchable x rs fus j))
       \<or> (\<exists>k. i \<le> k \<and> dispatchable x rs fus k
               \<and> (\<forall>j. i \<le> j \<and> j < k \<longrightarrow> \<not> dispatchable x rs fus j)
               \<and> r = dispatched x rs fus k)"
  using assms
proof (induction x rs fus i rule: schedule_loop.induct)
  case (1 x rs fus i)
  show ?case
  proof (cases "i < RS_size rs")
    case False
    then show ?thesis
      using "1.prems" by (subst (asm) schedule_loop_step) (auto simp: dispatchable_def)
  next
    case inr: True
    show ?thesis
    proof (cases "dispatchable x rs fus i")
      case True
      then have "r = dispatched x rs fus i"
        using "1.prems" inr by (subst (asm) schedule_loop_step) (simp add: dispatchable_def)
      with True show ?thesis by (intro disjI2 exI [of _ i]) auto
    next
      case False
      have rec: "schedule_loop x rs fus (i + 1) = Inr r"
        using "1.prems" inr False
        by (subst (asm) schedule_loop_step) (auto simp: dispatchable_def split: if_splits)
      have skip: "\<And>j. i \<le> j \<Longrightarrow> j < i + 1 \<Longrightarrow> \<not> dispatchable x rs fus j"
        using False by (metis Suc_eq_plus1 le_antisym less_Suc_eq_le)
      have ih: "(r = (rs, fus) \<and> (\<forall>j. i + 1 \<le> j \<longrightarrow> \<not> dispatchable x rs fus j))
       \<or> (\<exists>k. i + 1 \<le> k \<and> dispatchable x rs fus k
               \<and> (\<forall>j. i + 1 \<le> j \<and> j < k \<longrightarrow> \<not> dispatchable x rs fus j)
               \<and> r = dispatched x rs fus k)"
      proof (cases "eligible x rs i")
        case True
        with False inr have
          "getFUType (rs_instr (rs ! i)) < length fus \<Longrightarrow> FU_busy (fus ! getFUType (rs_instr (rs ! i)))"
          by (simp add: dispatchable_def)
        moreover have "getFUType (rs_instr (rs ! i)) < length fus"
          using "1.prems" inr True by (subst (asm) schedule_loop_step) (auto split: if_splits)
        ultimately show ?thesis
          using "1.IH"(1) [OF inr refl _ refl _ _ rec] True inr
          by (simp add: eligible_def RS_get_entry_def at_def FU_busy_def)
      next
        case False
        then show ?thesis
          using "1.IH"(2) [OF inr refl _ rec] by (simp add: eligible_def RS_get_entry_def)
      qed
      from ih show ?thesis
      proof
        assume a: "r = (rs, fus) \<and> (\<forall>j. i + 1 \<le> j \<longrightarrow> \<not> dispatchable x rs fus j)"
        have "\<And>j. i \<le> j \<Longrightarrow> \<not> dispatchable x rs fus j"
          using a skip by (metis not_less)
        with a show ?thesis by blast
      next
        assume "\<exists>k. i + 1 \<le> k \<and> dispatchable x rs fus k
               \<and> (\<forall>j. i + 1 \<le> j \<and> j < k \<longrightarrow> \<not> dispatchable x rs fus j)
               \<and> r = dispatched x rs fus k"
        then obtain k where k: "i + 1 \<le> k" "dispatchable x rs fus k"
          "\<forall>j. i + 1 \<le> j \<and> j < k \<longrightarrow> \<not> dispatchable x rs fus j" "r = dispatched x rs fus k"
          by blast
        have "\<And>j. i \<le> j \<Longrightarrow> j < k \<Longrightarrow> \<not> dispatchable x rs fus j"
          using k(3) skip by (metis not_less)
        with k show ?thesis by (intro disjI2 exI [of _ k]) auto
      qed
    qed
  qed
qed

text \<open>The scan returns when every eligible slot names a unit that exists.\<close>

lemma schedule_loop_total:
  assumes "\<forall>j. j < RS_size rs \<and> eligible x rs j \<longrightarrow> getFUType (rs_instr (rs ! j)) < length fus"
  shows "\<exists>r. schedule_loop x rs fus i = Inr r"
  using assms
proof (induction x rs fus i rule: schedule_loop.induct)
  case (1 x rs fus i)
  show ?case
  proof (cases "i < RS_size rs")
    case False
    then show ?thesis by (subst schedule_loop_step) simp
  next
    case inr: True
    show ?thesis
    proof (cases "eligible x rs i")
      case False
      then show ?thesis
        using "1.IH"(2) [OF inr refl _ "1.prems"] inr
        by (subst schedule_loop_step) (simp add: eligible_def RS_get_entry_def)
    next
      case True
      then have ft: "getFUType (rs_instr (rs ! i)) < length fus"
        using "1.prems" inr by blast
      show ?thesis
      proof (cases "FU_busy (fus ! getFUType (rs_instr (rs ! i)))")
        case False
        then show ?thesis using inr True ft by (subst schedule_loop_step) simp
      next
        case busy: True
        then show ?thesis
          using "1.IH"(1) [OF inr refl _ refl _ _ "1.prems"] inr True ft
          by (subst schedule_loop_step)
             (simp add: eligible_def RS_get_entry_def at_def FU_busy_def)
      qed
    qed
  qed
qed

lemma drain_loop_occupied: "\<not> CDB_empty c \<Longrightarrow> drain_loop fus c = (fus, c)"
  by (induction fus) simp_all

lemma drain_loop_none_done:
  "\<forall>j < length fus. \<not> FU_done (fus ! j) \<Longrightarrow> drain_loop fus c = (fus, c)"
proof (induction fus)
  case Nil
  then show ?case by simp
next
  case (Cons fu fus)
  have "\<not> FU_done fu" using Cons.prems by auto
  moreover have "\<forall>j < length fus. \<not> FU_done (fus ! j)" using Cons.prems by auto
  ultimately show ?case using Cons.IH by simp
qed

lemma drain_loop_first_done:
  assumes "CDB_empty c" and "j < length fus" and "FU_done (fus ! j)"
    and "\<forall>i < j. \<not> FU_done (fus ! i)"
  shows "drain_loop fus c =
     (fus[j := FU_clear (fus ! j)],
      Some \<lparr>cdb_result = out_result (FU_get_output (fus ! j)),
            cdb_rob_index = out_rob_index (FU_get_output (fus ! j)),
            cdb_rs_index = out_rs_index (FU_get_output (fus ! j))\<rparr>)"
  using assms(2-4)
proof (induction fus arbitrary: j)
  case Nil
  then show ?case by simp
next
  case (Cons fu fus)
  show ?case
  proof (cases j)
    case 0
    then show ?thesis using Cons.prems assms(1) by (simp add: Let_def CDB_push_def)
  next
    case (Suc j')
    have nd: "\<not> FU_done fu" using Cons.prems(3) Suc by auto
    have "\<forall>i < j'. \<not> FU_done (fus ! i)" using Cons.prems(3) Suc by auto
    then have "drain_loop fus c =
     (fus[j' := FU_clear (fus ! j')],
      Some \<lparr>cdb_result = out_result (FU_get_output (fus ! j')),
            cdb_rob_index = out_rob_index (FU_get_output (fus ! j')),
            cdb_rs_index = out_rs_index (FU_get_output (fus ! j'))\<rparr>)"
      using Cons.IH [of j'] Cons.prems Suc by simp
    then show ?thesis using nd Suc by simp
  qed
qed

lemma execute_eq_Inr:
  "execute x s = Inr s' \<longleftrightarrow>
     (\<exists>rs' fus3. schedule_loop x (RS s)
                    (fst (drain_loop (execute_units (FUs s)) (CDB s))) 0 = Inr (rs', fus3)
        \<and> s' = s\<lparr>RS := rs', CDB := snd (drain_loop (execute_units (FUs s)) (CDB s)),
                 FUs := fus3\<rparr>)"
  by (auto simp: execute_def Let_def bind_err_eq_Inr split: prod.splits)

lemma dispatched_keeps_done:
  assumes "dispatchable x rs fus k" and "FU_done (fus ! i)"
  shows "snd (dispatched x rs fus k) ! i = fus ! i"
proof -
  have "i \<noteq> getFUType (rs_instr (rs ! k))"
    using assms by (auto simp: dispatchable_def FU_done_def FU_busy_def)
  then show ?thesis by (simp add: dispatched_def)
qed

lemma drain_loop_length: "length (fst (drain_loop fus c)) = length fus"
  by (induction fus) (auto simp: Let_def split: prod.splits)

lemma update_operands_valid [simp]: "rs_valid (update_operands e msg) = rs_valid e"
  by (simp add: update_operands_def Let_def)

section \<open>The example, stage by stage\<close>

lemmas execute_eval = execute_def execute_units_def FU_execute_def FU_done_def FU_clear_def
  FU_get_output_def FU_busy_def FU_issue_def CDB_empty_def CDB_push_def schedule_loop_step
  eligible_def dispatched_def RS_size_def RS_operands_ready_def RS_locked_def Let_def

lemmas writeback_eval = writeback_cases written_back_def woken_def update_operands_def

lemmas commit_eval = commit_cases retired_def head_instr_def ROB_empty_def ROB_pop_def Let_def

lemma ex_execute_3: "execute ex_ext ex_core2 = Inr ex_core3"
  by (simp add: execute_eval ex_states ex_defs)

lemma ex_execute_4: "execute ex_ext ex_core3 = Inr ex_core4"
  by (simp add: execute_eval ex_states ex_defs)

lemma ex_writeback_5: "writeback ex_core4 = Inr ex_core5"
  by (simp add: writeback_eval Let_def ex_states ex_defs)

lemma ex_commit_6: "commit ex_core5 = Inr ex_core6"
  by (simp add: commit_eval ex_states ex_defs)

lemma ex_execute_both: "execute ex_ext ex_core_both = Inr ex_core_both1"
  by (simp add: execute_eval ex_core_both_def ex_core_both1_def ex_states ex_defs)

lemma ex_execute_occupied: "execute ex_ext ex_core_occupied = Inr ex_core_occupied1"
  by (simp add: execute_eval ex_core_occupied_def ex_core_occupied1_def ex_states ex_defs)

lemma ex_exit_run:
  "run ex_ext [Issue, Execute, Execute, Writeback] ex_exit_start = Inr ex_exit_wb"
  by (simp add: issue_eval execute_eval writeback_eval
        ex_exit_start_def ex_exit_wb_def ex_defs)

lemma ex_exit_commit: "commit ex_exit_wb = Inr ex_exit_done"
  by (simp add: commit_eval ex_exit_wb_def ex_exit_done_def ex_defs)

lemma ex_waw_run:
  "run ex_ext [Issue, Issue, Execute, Execute, Writeback, Commit] ex_waw = Inr ex_waw_end"
  by (simp add: issue_eval execute_eval writeback_eval commit_eval
        ex_waw_def ex_waw_end_def ex_defs)

section \<open>When the stages return\<close>

text \<open>Conditions under which a stage returns a state rather than aborting.\<close>

lemma read_operand_total:
  "(used \<longrightarrow> operand_in_range s reg) \<Longrightarrow> \<exists>v. read_operand s used reg = Inr v"
  by (cases used) (simp_all add: read_operand_eq_Inr)

lemma issue_total:
  assumes "use_rs1 (getExeFlags (hd (issue_queue s))) \<longrightarrow>
             operand_in_range s (getRs1 (hd (issue_queue s)))"
    and "use_rs2 (getExeFlags (hd (issue_queue s))) \<longrightarrow>
             operand_in_range s (getRs2 (hd (issue_queue s)))"
  shows "\<exists>s'. issue s = Inr s'"
  using read_operand_total [OF assms(1)] read_operand_total [OF assms(2)]
  by (auto simp: issue_read_operand)

lemma execute_total:
  assumes "\<forall>j. j < RS_size (RS s) \<and> eligible x (RS s) j \<longrightarrow>
             getFUType (rs_instr (RS s ! j)) < length (FUs s)"
  shows "\<exists>s'. execute x s = Inr s'"
proof -
  have "length (fst (drain_loop (execute_units (FUs s)) (CDB s))) = length (FUs s)"
    by (simp add: drain_loop_length execute_units_def)
  then obtain r where
    "schedule_loop x (RS s) (fst (drain_loop (execute_units (FUs s)) (CDB s))) 0 = Inr r"
    using schedule_loop_total [of "RS s" x "fst (drain_loop (execute_units (FUs s)) (CDB s))" 0]
      assms by auto
  then show ?thesis by (cases r) (simp add: execute_eq_Inr)
qed

lemma writeback_total:
  assumes "\<forall>msg. CDB s = Some msg \<longrightarrow>
      cdb_rs_index msg < RS_size (RS s) \<and> cdb_rob_index msg < length (rob_store (ROB s))"
  shows "\<exists>s'. writeback s = Inr s'"
  using assms by (cases "CDB s") (auto simp: writeback_cases RS_size_def)

section \<open>Properties of writeback\<close>

text \<open>
  Claim C3. Writeback returns the state unchanged when the bus is empty. When the bus
  holds a message \<open>msg\<close> and writeback returns, every valid station has had its operands
  updated with the message (\<open>w\<close> is that update), the slot named by the message, and no
  other, has been released, the reorder-buffer entry at the message's reorder index is
  ready and holds the message's result, and the bus is empty. In either case the bus is
  empty after writeback, so no broadcast is pending when the next cycle starts, and
  nothing else of the core changes.
\<close>

theorem writeback_broadcast:
  fixes s s' :: core and msg :: cdb_data
  defines "w \<equiv> \<lambda>entry. if rs_valid entry then update_operands entry msg else entry"
  assumes "writeback s = Inr s'"
  shows "(CDB s = None \<longrightarrow> s' = s)
       \<and> (CDB s = Some msg \<longrightarrow>
            cdb_rs_index msg < RS_size (RS s)
          \<and> cdb_rob_index msg < length (rob_store (ROB s))
          \<and> RS_size (RS s') = RS_size (RS s)
          \<and> (\<forall>i. i < RS_size (RS s) \<and> i \<noteq> cdb_rs_index msg \<longrightarrow> RS s' ! i = w (RS s ! i))
          \<and> RS s' ! cdb_rs_index msg = (w (RS s ! cdb_rs_index msg))\<lparr>rs_valid := False\<rparr>
          \<and> (\<forall>i. i < RS_size (RS s) \<longrightarrow>
                rs_valid (RS s' ! i) = (rs_valid (RS s ! i) \<and> i \<noteq> cdb_rs_index msg))
          \<and> ROB s' = (ROB s)\<lparr>rob_store := (rob_store (ROB s))[cdb_rob_index msg :=
                (rob_store (ROB s) ! cdb_rob_index msg)
                  \<lparr>rob_ready := True, rob_result := cdb_result msg\<rparr>]\<rparr>
          \<and> rob_ready (rob_store (ROB s') ! cdb_rob_index msg)
          \<and> rob_result (rob_store (ROB s') ! cdb_rob_index msg) = cdb_result msg)
       \<and> CDB s' = None
       \<and> issue_queue s' = issue_queue s \<and> RAT s' = RAT s \<and> RST s' = RST s
       \<and> FUs s' = FUs s \<and> reg_file s' = reg_file s \<and> perf_instrs s' = perf_instrs s
       \<and> fetched_instrs s' = fetched_instrs s \<and> exited s' = exited s"
proof (cases "CDB s")
  case None
  then show ?thesis using assms(2) by (simp add: writeback_cases)
next
  case (Some m)
  have r: "cdb_rs_index m < length (RS s)" "cdb_rob_index m < length (rob_store (ROB s))"
    and s': "s' = written_back s m"
    using assms(2) Some by (auto simp: writeback_cases split: if_splits)
  have rest: "CDB s' = None
       \<and> issue_queue s' = issue_queue s \<and> RAT s' = RAT s \<and> RST s' = RST s
       \<and> FUs s' = FUs s \<and> reg_file s' = reg_file s \<and> perf_instrs s' = perf_instrs s
       \<and> fetched_instrs s' = fetched_instrs s \<and> exited s' = exited s"
    by (simp add: s' written_back_def)
  have wv: "\<And>e. rs_valid (w e) = rs_valid e" by (simp add: w_def)
  have main: "cdb_rs_index msg < RS_size (RS s)
          \<and> cdb_rob_index msg < length (rob_store (ROB s))
          \<and> RS_size (RS s') = RS_size (RS s)
          \<and> (\<forall>i. i < RS_size (RS s) \<and> i \<noteq> cdb_rs_index msg \<longrightarrow> RS s' ! i = w (RS s ! i))
          \<and> RS s' ! cdb_rs_index msg = (w (RS s ! cdb_rs_index msg))\<lparr>rs_valid := False\<rparr>
          \<and> (\<forall>i. i < RS_size (RS s) \<longrightarrow>
                rs_valid (RS s' ! i) = (rs_valid (RS s ! i) \<and> i \<noteq> cdb_rs_index msg))
          \<and> ROB s' = (ROB s)\<lparr>rob_store := (rob_store (ROB s))[cdb_rob_index msg :=
                (rob_store (ROB s) ! cdb_rob_index msg)
                  \<lparr>rob_ready := True, rob_result := cdb_result msg\<rparr>]\<rparr>
          \<and> rob_ready (rob_store (ROB s') ! cdb_rob_index msg)
          \<and> rob_result (rob_store (ROB s') ! cdb_rob_index msg) = cdb_result msg"
    if eq: "m = msg"
  proof -
    have wk: "woken msg = w" by (simp add: w_def woken_def fun_eq_iff)
    have rs: "RS s' = (map w (RS s))[cdb_rs_index msg :=
        (w (RS s ! cdb_rs_index msg))\<lparr>rs_valid := False\<rparr>]"
      by (simp add: s' written_back_def eq wk)
    have rob: "ROB s' = (ROB s)\<lparr>rob_store := (rob_store (ROB s))[cdb_rob_index msg :=
                (rob_store (ROB s) ! cdb_rob_index msg)
                  \<lparr>rob_ready := True, rob_result := cdb_result msg\<rparr>]\<rparr>"
      by (simp add: s' written_back_def eq)
    have v: "rs_valid (RS s' ! i) = (rs_valid (RS s ! i) \<and> i \<noteq> cdb_rs_index msg)"
      if "i < RS_size (RS s)" for i
      using that by (cases "i = cdb_rs_index msg") (simp_all add: rs RS_size_def wv)
    show ?thesis
      using r v by (simp add: eq rs rob RS_size_def)
  qed
  show ?thesis
    using rest main Some by simp
qed


theorem writeback_broadcast_witness:
  "writeback ex_core4 = Inr ex_core5
   \<and> CDB ex_core4 = Some \<lparr>cdb_result = 12, cdb_rob_index = 0, cdb_rs_index = 0\<rparr>
   \<and> rs1_index (RS ex_core4 ! 1) = 0
   \<and> rs1_index (RS ex_core5 ! 1) = - 1 \<and> rs1_data (RS ex_core5 ! 1) = 12
   \<and> rs_valid (RS ex_core4 ! 0) \<and> \<not> rs_valid (RS ex_core5 ! 0) \<and> rs_valid (RS ex_core5 ! 1)
   \<and> rob_ready (rob_store (ROB ex_core5) ! 0) \<and> rob_result (rob_store (ROB ex_core5) ! 0) = 12
   \<and> CDB ex_core5 = None"
proof -
  have facts: "CDB ex_core4 = Some \<lparr>cdb_result = 12, cdb_rob_index = 0, cdb_rs_index = 0\<rparr>
   \<and> rs1_index (RS ex_core4 ! 1) = 0
   \<and> rs1_index (RS ex_core5 ! 1) = - 1 \<and> rs1_data (RS ex_core5 ! 1) = 12
   \<and> rs_valid (RS ex_core4 ! 0) \<and> \<not> rs_valid (RS ex_core5 ! 0) \<and> rs_valid (RS ex_core5 ! 1)
   \<and> rob_ready (rob_store (ROB ex_core5) ! 0) \<and> rob_result (rob_store (ROB ex_core5) ! 0) = 12
   \<and> CDB ex_core5 = None"
    by (simp add: ex_states ex_defs)
  show ?thesis
    using writeback_broadcast [OF ex_writeback_5,
            of "\<lparr>cdb_result = 12, cdb_rob_index = 0, cdb_rs_index = 0\<rparr>"]
    by - (rule conjI [OF ex_writeback_5 facts])
qed

section \<open>Properties of execute\<close>

text \<open>
  Claim C4. Let \<open>fus2\<close> be the units after they have advanced and one has drained. An
  execute that returns either finds no dispatchable slot and leaves stations and units
  as they are, or dispatches exactly one slot \<open>k\<close>: the dispatchable slot of lowest index,
  that is the first slot that is valid, not running, has both operands ready, is not
  locked and whose unit, selected by the category of its instruction, is not busy. That
  slot is marked running, every other slot is unchanged, and the unit receives the
  instruction.
\<close>

theorem execute_dispatch_lowest:
  fixes x :: ext and s s' :: core
  defines "fus2 \<equiv> fst (drain_loop (execute_units (FUs s)) (CDB s))"
  assumes "execute x s = Inr s'"
  shows "((\<forall>j. \<not> dispatchable x (RS s) fus2 j) \<and> RS s' = RS s \<and> FUs s' = fus2)
       \<or> (\<exists>k. dispatchable x (RS s) fus2 k
              \<and> (\<forall>j. j < k \<longrightarrow> \<not> dispatchable x (RS s) fus2 j)
              \<and> RS s' = (RS s)[k := (RS s ! k)\<lparr>rs_running := True\<rparr>]
              \<and> rs_running (RS s' ! k)
              \<and> (\<forall>i. i \<noteq> k \<longrightarrow> RS s' ! i = RS s ! i)
              \<and> FUs s' = fus2[getFUType (rs_instr (RS s ! k)) :=
                    FU_issue x (fus2 ! getFUType (rs_instr (RS s ! k))) (rs_instr (RS s ! k))
                      (rs_rob_index (RS s ! k)) k (rs1_data (RS s ! k)) (rs2_data (RS s ! k))])"
proof -
  obtain rs' fus3 where
    sl: "schedule_loop x (RS s) fus2 0 = Inr (rs', fus3)"
    and s': "s' = s\<lparr>RS := rs', CDB := snd (drain_loop (execute_units (FUs s)) (CDB s)),
                   FUs := fus3\<rparr>"
    using assms(2) unfolding execute_eq_Inr fus2_def by blast
  from schedule_loop_Inr [OF sl] show ?thesis
  proof
    assume "(rs', fus3) = (RS s, fus2) \<and> (\<forall>j. 0 \<le> j \<longrightarrow> \<not> dispatchable x (RS s) fus2 j)"
    then show ?thesis by (simp add: s')
  next
    assume "\<exists>k. 0 \<le> k \<and> dispatchable x (RS s) fus2 k
               \<and> (\<forall>j. 0 \<le> j \<and> j < k \<longrightarrow> \<not> dispatchable x (RS s) fus2 j)
               \<and> (rs', fus3) = dispatched x (RS s) fus2 k"
    then obtain k where k: "dispatchable x (RS s) fus2 k"
      "\<forall>j. j < k \<longrightarrow> \<not> dispatchable x (RS s) fus2 j"
      "(rs', fus3) = dispatched x (RS s) fus2 k"
      by auto
    have klen: "k < length (RS s)" using k(1) by (simp add: dispatchable_def RS_size_def)
    have rs: "RS s' = (RS s)[k := (RS s ! k)\<lparr>rs_running := True\<rparr>]"
      and fus: "FUs s' = fus2[getFUType (rs_instr (RS s ! k)) :=
                    FU_issue x (fus2 ! getFUType (rs_instr (RS s ! k))) (rs_instr (RS s ! k))
                      (rs_rob_index (RS s ! k)) k (rs1_data (RS s ! k)) (rs2_data (RS s ! k))]"
      using k(3) by (simp_all add: s' dispatched_def)
    have "rs_running (RS s' ! k)" using klen by (simp add: rs)
    moreover have "\<forall>i. i \<noteq> k \<longrightarrow> RS s' ! i = RS s ! i" by (simp add: rs)
    ultimately show ?thesis using k(1,2) rs fus by blast
  qed
qed


theorem execute_dispatch_lowest_witness:
  "execute ex_ext ex_core_both = Inr ex_core_both1
   \<and> dispatchable ex_ext (RS ex_core_both)
        (fst (drain_loop (execute_units (FUs ex_core_both)) (CDB ex_core_both))) 0
   \<and> dispatchable ex_ext (RS ex_core_both)
        (fst (drain_loop (execute_units (FUs ex_core_both)) (CDB ex_core_both))) 1
   \<and> rs_running (RS ex_core_both1 ! 0) \<and> \<not> rs_running (RS ex_core_both1 ! 1)
   \<and> RS ex_core_both1 ! 1 = RS ex_core_both ! 1"
proof -
  have facts: "dispatchable ex_ext (RS ex_core_both)
        (fst (drain_loop (execute_units (FUs ex_core_both)) (CDB ex_core_both))) 0
   \<and> dispatchable ex_ext (RS ex_core_both)
        (fst (drain_loop (execute_units (FUs ex_core_both)) (CDB ex_core_both))) 1
   \<and> rs_running (RS ex_core_both1 ! 0) \<and> \<not> rs_running (RS ex_core_both1 ! 1)
   \<and> RS ex_core_both1 ! 1 = RS ex_core_both ! 1"
    by (simp add: dispatchable_def execute_eval ex_core_both_def ex_core_both1_def
          ex_states ex_defs)
  show ?thesis
    using execute_dispatch_lowest [OF ex_execute_both]
    by - (rule conjI [OF ex_execute_both facts])
qed

text \<open>
  Claim C5. In an execute that returns, the units of the returned state are the units
  advanced by one cycle (\<open>fus1\<close>), then drained, then given at most one instruction by
  the dispatch scan (\<open>scheduled\<close>); a unit that is busy after the drain is not touched
  by the scan (\<open>kept\<close>). When the bus is occupied, no unit drains or is cleared and the
  bus keeps its message. When the bus is empty and no unit is done, nothing drains.
  When the bus is empty, the first done unit \<open>j\<close> in scan order, and only that one,
  puts its output (result, reorder index, slot id) on the bus and is cleared. Every
  other done unit, that is every done unit when the bus is occupied and every done unit
  after the first otherwise, is in the returned state as it was after the advance, and
  is still done.
\<close>

theorem execute_drain_one:
  fixes x :: ext and s s' :: core and j :: nat
  defines "fus1 \<equiv> map FU_execute (FUs s)"
    and "scheduled \<equiv> \<lambda>f.
          ((\<forall>k. \<not> dispatchable x (RS s) f k) \<and> FUs s' = f)
        \<or> (\<exists>k. dispatchable x (RS s) f k
               \<and> (\<forall>i. i < k \<longrightarrow> \<not> dispatchable x (RS s) f i)
               \<and> FUs s' = f[getFUType (rs_instr (RS s ! k)) :=
                     FU_issue x (f ! getFUType (rs_instr (RS s ! k))) (rs_instr (RS s ! k))
                       (rs_rob_index (RS s ! k)) k (rs1_data (RS s ! k)) (rs2_data (RS s ! k))])"
    and "kept \<equiv> \<lambda>f. \<forall>i. i < length f \<and> FU_busy (f ! i) \<longrightarrow> FUs s' ! i = f ! i"
  assumes "execute x s = Inr s'"
  shows "(\<not> CDB_empty (CDB s) \<longrightarrow> CDB s' = CDB s \<and> scheduled fus1 \<and> kept fus1)
       \<and> (CDB_empty (CDB s) \<and> (\<forall>i. i < length fus1 \<longrightarrow> \<not> FU_done (fus1 ! i)) \<longrightarrow>
            CDB s' = CDB s \<and> scheduled fus1 \<and> kept fus1)
       \<and> (CDB_empty (CDB s) \<and> j < length fus1 \<and> FU_done (fus1 ! j)
          \<and> (\<forall>i. i < j \<longrightarrow> \<not> FU_done (fus1 ! i)) \<longrightarrow>
            CDB s' = Some \<lparr>cdb_result = out_result (FU_get_output (fus1 ! j)),
                           cdb_rob_index = out_rob_index (FU_get_output (fus1 ! j)),
                           cdb_rs_index = out_rs_index (FU_get_output (fus1 ! j))\<rparr>
          \<and> scheduled (fus1[j := FU_clear (fus1 ! j)])
          \<and> kept (fus1[j := FU_clear (fus1 ! j)])
          \<and> \<not> FU_busy (FU_clear (fus1 ! j)) \<and> \<not> FU_done (FU_clear (fus1 ! j))
          \<and> (\<forall>i. i < length fus1 \<and> i \<noteq> j \<and> FU_busy (fus1 ! i) \<longrightarrow>
                FUs s' ! i = fus1 ! i))
       \<and> (\<forall>i. i < length fus1 \<and> FU_done (fus1 ! i)
              \<and> (\<not> CDB_empty (CDB s) \<or> (\<exists>m. m < i \<and> FU_done (fus1 ! m))) \<longrightarrow>
              FUs s' ! i = fus1 ! i \<and> FU_done (FUs s' ! i))
       \<and> length (FUs s') = length (FUs s)"
proof -
  define fus2 where "fus2 = fst (drain_loop fus1 (CDB s))"
  have e1: "execute_units (FUs s) = fus1" by (simp add: fus1_def execute_units_def)
  obtain rs' fus3 where
    sl: "schedule_loop x (RS s) fus2 0 = Inr (rs', fus3)"
    and s': "s' = s\<lparr>RS := rs', CDB := snd (drain_loop fus1 (CDB s)), FUs := fus3\<rparr>"
    using assms(4) unfolding execute_eq_Inr fus2_def e1 by blast
  have c': "CDB s' = snd (drain_loop fus1 (CDB s))" and f3: "FUs s' = fus3" by (simp_all add: s')
  have sch: "scheduled fus2"
  proof -
    from schedule_loop_Inr [OF sl] show ?thesis
    proof
      assume "(rs', fus3) = (RS s, fus2) \<and> (\<forall>j. 0 \<le> j \<longrightarrow> \<not> dispatchable x (RS s) fus2 j)"
      then show ?thesis by (simp add: scheduled_def f3)
    next
      assume "\<exists>k. 0 \<le> k \<and> dispatchable x (RS s) fus2 k
               \<and> (\<forall>j. 0 \<le> j \<and> j < k \<longrightarrow> \<not> dispatchable x (RS s) fus2 j)
               \<and> (rs', fus3) = dispatched x (RS s) fus2 k"
      then obtain k where k: "dispatchable x (RS s) fus2 k"
        "\<forall>i. i < k \<longrightarrow> \<not> dispatchable x (RS s) fus2 i"
        "(rs', fus3) = dispatched x (RS s) fus2 k"
        by auto
      have "FUs s' = fus2[getFUType (rs_instr (RS s ! k)) :=
                     FU_issue x (fus2 ! getFUType (rs_instr (RS s ! k))) (rs_instr (RS s ! k))
                       (rs_rob_index (RS s ! k)) k (rs1_data (RS s ! k)) (rs2_data (RS s ! k))]"
        using k(3) by (simp add: f3 dispatched_def)
      with k(1,2) show ?thesis unfolding scheduled_def by blast
    qed
  qed
  have kp: "kept fus2"
    unfolding kept_def
  proof (intro allI impI)
    fix i assume i: "i < length fus2 \<and> FU_busy (fus2 ! i)"
    from sch show "FUs s' ! i = fus2 ! i"
      unfolding scheduled_def
    proof
      assume "(\<forall>k. \<not> dispatchable x (RS s) fus2 k) \<and> FUs s' = fus2"
      then show ?thesis by simp
    next
      assume "\<exists>k. dispatchable x (RS s) fus2 k
               \<and> (\<forall>i. i < k \<longrightarrow> \<not> dispatchable x (RS s) fus2 i)
               \<and> FUs s' = fus2[getFUType (rs_instr (RS s ! k)) :=
                     FU_issue x (fus2 ! getFUType (rs_instr (RS s ! k))) (rs_instr (RS s ! k))
                       (rs_rob_index (RS s ! k)) k (rs1_data (RS s ! k)) (rs2_data (RS s ! k))]"
      then obtain k where k: "dispatchable x (RS s) fus2 k"
        "FUs s' = fus2[getFUType (rs_instr (RS s ! k)) :=
                     FU_issue x (fus2 ! getFUType (rs_instr (RS s ! k))) (rs_instr (RS s ! k))
                       (rs_rob_index (RS s ! k)) k (rs1_data (RS s ! k)) (rs2_data (RS s ! k))]"
        by blast
      have "i \<noteq> getFUType (rs_instr (RS s ! k))"
        using k(1) i by (auto simp: dispatchable_def)
      then show ?thesis by (simp add: k(2))
    qed
  qed
  have len2: "length fus2 = length fus1" by (simp add: fus2_def drain_loop_length)
  have len: "length (FUs s') = length (FUs s)"
  proof -
    have "length (FUs s') = length fus2"
      using sch unfolding scheduled_def by auto
    then show ?thesis by (simp add: len2 fus1_def)
  qed
  have b: "CDB s' = CDB s \<and> scheduled fus1 \<and> kept fus1" if "\<not> CDB_empty (CDB s)"
  proof -
    have "drain_loop fus1 (CDB s) = (fus1, CDB s)" using that by (rule drain_loop_occupied)
    then have "fus2 = fus1" "CDB s' = CDB s" by (simp_all add: fus2_def c')
    then show ?thesis using sch kp by simp
  qed
  have c: "CDB s' = CDB s \<and> scheduled fus1 \<and> kept fus1"
    if "\<forall>i. i < length fus1 \<longrightarrow> \<not> FU_done (fus1 ! i)"
  proof -
    have "drain_loop fus1 (CDB s) = (fus1, CDB s)"
      using that by (intro drain_loop_none_done) simp
    then have "fus2 = fus1" "CDB s' = CDB s" by (simp_all add: fus2_def c')
    then show ?thesis using sch kp by simp
  qed
  have d1: "drain_loop fus1 (CDB s) =
     (fus1[m := FU_clear (fus1 ! m)],
      Some \<lparr>cdb_result = out_result (FU_get_output (fus1 ! m)),
            cdb_rob_index = out_rob_index (FU_get_output (fus1 ! m)),
            cdb_rs_index = out_rs_index (FU_get_output (fus1 ! m))\<rparr>)"
    if "CDB_empty (CDB s)" "m < length fus1" "FU_done (fus1 ! m)"
      "\<forall>i. i < m \<longrightarrow> \<not> FU_done (fus1 ! i)" for m
    using that by (intro drain_loop_first_done) auto
  have d: "CDB s' = Some \<lparr>cdb_result = out_result (FU_get_output (fus1 ! j)),
                           cdb_rob_index = out_rob_index (FU_get_output (fus1 ! j)),
                           cdb_rs_index = out_rs_index (FU_get_output (fus1 ! j))\<rparr>
          \<and> scheduled (fus1[j := FU_clear (fus1 ! j)])
          \<and> kept (fus1[j := FU_clear (fus1 ! j)])
          \<and> \<not> FU_busy (FU_clear (fus1 ! j)) \<and> \<not> FU_done (FU_clear (fus1 ! j))
          \<and> (\<forall>i. i < length fus1 \<and> i \<noteq> j \<and> FU_busy (fus1 ! i) \<longrightarrow>
                FUs s' ! i = fus1 ! i)"
    if h: "CDB_empty (CDB s)" "j < length fus1" "FU_done (fus1 ! j)"
      "\<forall>i. i < j \<longrightarrow> \<not> FU_done (fus1 ! i)"
  proof -
    have f2: "fus2 = fus1[j := FU_clear (fus1 ! j)]" and cd: "CDB s' = Some \<lparr>cdb_result = out_result (FU_get_output (fus1 ! j)),
                           cdb_rob_index = out_rob_index (FU_get_output (fus1 ! j)),
                           cdb_rs_index = out_rs_index (FU_get_output (fus1 ! j))\<rparr>"
      using d1 [OF h] by (simp_all add: fus2_def c')
    have k2: "kept (fus1[j := FU_clear (fus1 ! j)])" using kp f2 by simp
    have "\<forall>i. i < length fus1 \<and> i \<noteq> j \<and> FU_busy (fus1 ! i) \<longrightarrow> FUs s' ! i = fus1 ! i"
      using k2 unfolding kept_def by (metis length_list_update nth_list_update_neq)
    then show ?thesis
      using sch k2 cd f2 by (simp add: FU_clear_def FU_busy_def FU_done_def)
  qed
  have e: "FUs s' ! i = fus1 ! i \<and> FU_done (FUs s' ! i)"
    if i: "i < length fus1" "FU_done (fus1 ! i)"
      "\<not> CDB_empty (CDB s) \<or> (\<exists>m. m < i \<and> FU_done (fus1 ! m))" for i
  proof -
    have busy: "FU_busy (fus1 ! i)" using i(2) by (simp add: FU_done_def FU_busy_def)
    have "FUs s' ! i = fus1 ! i"
    proof (cases "CDB_empty (CDB s)")
      case False
      then show ?thesis using b i(1) busy unfolding kept_def by blast
    next
      case True
      then obtain m0 where m0: "m0 < i" "FU_done (fus1 ! m0)" using i(3) by blast
      define m where "m = (LEAST n. FU_done (fus1 ! n))"
      have md: "FU_done (fus1 ! m)" unfolding m_def using m0(2) by (rule LeastI)
      have mle: "m \<le> m0" unfolding m_def using m0(2) by (rule Least_le)
      have mn: "\<forall>n. n < m \<longrightarrow> \<not> FU_done (fus1 ! n)"
        unfolding m_def using not_less_Least by blast
      have ml: "m < length fus1" using mle m0(1) i(1) by simp
      have f2: "fus2 = fus1[m := FU_clear (fus1 ! m)]"
        using d1 [OF True ml md mn] by (simp add: fus2_def)
      have "i \<noteq> m" using mle m0(1) by simp
      then have "fus2 ! i = fus1 ! i" by (simp add: f2)
      moreover have "FUs s' ! i = fus2 ! i"
        using kp i(1) busy \<open>fus2 ! i = fus1 ! i\<close> len2 unfolding kept_def by simp
      ultimately show ?thesis by simp
    qed
    then show ?thesis using i(2) by simp
  qed
  show ?thesis
    using b c d e len by blast
qed

theorem execute_drain_one_witness:
  "execute ex_ext ex_core3 = Inr ex_core4
   \<and> execute ex_ext ex_core_occupied = Inr ex_core_occupied1
   \<and> CDB_empty (CDB ex_core3)
   \<and> FU_done (map FU_execute (FUs ex_core3) ! 0)
   \<and> CDB ex_core4 = Some \<lparr>cdb_result = 12, cdb_rob_index = 0, cdb_rs_index = 0\<rparr>
   \<and> FUs ex_core4 = (map FU_execute (FUs ex_core3))
         [0 := FU_clear (map FU_execute (FUs ex_core3) ! 0)]
   \<and> \<not> FU_busy (FUs ex_core4 ! 0)
   \<and> \<not> CDB_empty (CDB ex_core_occupied)
   \<and> FU_done (map FU_execute (FUs ex_core_occupied) ! 0)
   \<and> CDB ex_core_occupied1 = CDB ex_core_occupied
   \<and> FUs ex_core_occupied1 = map FU_execute (FUs ex_core_occupied)
   \<and> FU_done (FUs ex_core_occupied1 ! 0)"
proof -
  have facts: "CDB_empty (CDB ex_core3)
   \<and> FU_done (map FU_execute (FUs ex_core3) ! 0)
   \<and> CDB ex_core4 = Some \<lparr>cdb_result = 12, cdb_rob_index = 0, cdb_rs_index = 0\<rparr>
   \<and> FUs ex_core4 = (map FU_execute (FUs ex_core3))
         [0 := FU_clear (map FU_execute (FUs ex_core3) ! 0)]
   \<and> \<not> FU_busy (FUs ex_core4 ! 0)
   \<and> \<not> CDB_empty (CDB ex_core_occupied)
   \<and> FU_done (map FU_execute (FUs ex_core_occupied) ! 0)
   \<and> CDB ex_core_occupied1 = CDB ex_core_occupied
   \<and> FUs ex_core_occupied1 = map FU_execute (FUs ex_core_occupied)
   \<and> FU_done (FUs ex_core_occupied1 ! 0)"
    by (simp add: execute_eval ex_core_occupied_def ex_core_occupied1_def ex_states ex_defs)
  show ?thesis
    using execute_drain_one [OF ex_execute_4, of 0]
      execute_drain_one [OF ex_execute_occupied, of 0]
    by - (rule conjI [OF ex_execute_4 conjI [OF ex_execute_occupied facts]])
qed

section \<open>Properties of commit\<close>

text \<open>The counters: every stage and every fetch keeps the core accounted.\<close>

lemma accounted_issue:
  assumes "accounted s" and "issue s = Inr s'"
  shows "accounted s'"
proof (cases "issue_queue s = [] \<or> RS_full (RS s) \<or> ROB_full (ROB s)")
  case True
  then have "s' = s" using assms(2) by (simp add: issue_read_operand)
  with assms(1) show ?thesis by simp
next
  case False
  then obtain o1 o2 where s': "s' = issued s o1 o2"
    using issue_Inr_proceeds [OF assms(2)] by blast
  have "length (issue_queue s) = Suc (length (tl (issue_queue s)))"
    using False by (cases "issue_queue s") simp_all
  then show ?thesis
    using assms(1) by (simp add: s' issued_def Let_def accounted_def)
qed

lemma accounted_execute:
  assumes "accounted s" and "execute x s = Inr s'"
  shows "accounted s'"
  using assms by (auto simp: execute_eq_Inr accounted_def)

lemma accounted_writeback:
  assumes "accounted s" and "writeback s = Inr s'"
  shows "accounted s'"
  using assms
  by (auto simp: writeback_cases written_back_def accounted_def split: option.splits if_splits)

lemma accounted_commit:
  assumes "accounted s" and "commit s = Inr s'"
  shows "accounted s'"
proof (cases "s' = s")
  case True
  with assms(1) show ?thesis by simp
next
  case False
  then have ne: "\<not> ROB_empty (ROB s)" and s': "s' = retired s"
    using assms(2) by (auto simp: commit_cases split: if_splits)
  have "0 < rob_count (ROB s)" using ne by (simp add: ROB_empty_def)
  then show ?thesis
    using assms(1) by (simp add: s' retired_def Let_def ROB_pop_def accounted_def)
qed

lemma accounted_step:
  assumes "accounted s" and "step x a s = Inr s'"
  shows "accounted s'"
proof (cases a)
  case Issue
  then show ?thesis using assms accounted_issue by simp
next
  case Execute
  then show ?thesis using assms accounted_execute by simp
next
  case Writeback
  then show ?thesis using assms accounted_writeback by simp
next
  case Commit
  then show ?thesis using assms accounted_commit by simp
next
  case (Fetch instr)
  then show ?thesis using assms by (auto simp: accounted_def)
qed

lemma accounted_run:
  "accounted s \<Longrightarrow> run x acts s = Inr s' \<Longrightarrow> accounted s'"
proof (induction acts arbitrary: s)
  case Nil
  then show ?case by simp
next
  case (Cons a acts)
  obtain t where t: "step x a s = Inr t" "run x acts t = Inr s'"
    using Cons.prems(2) by (auto simp: bind_err_eq_Inr)
  show ?case using Cons.IH [OF accounted_step [OF Cons.prems(1) t(1)] t(2)] .
qed

lemma commit_counter_step:
  fixes s s' :: core
  defines "h \<equiv> rob_store (ROB s) ! ROB_head_index (ROB s)"
  assumes "\<not> ROB_empty (ROB s)" and "ROB_head_index (ROB s) < length (rob_store (ROB s))"
    and "rob_ready h"
  shows "(fetched_instrs s < perf_instrs s \<longrightarrow> (\<exists>e. commit s = Inl e))
       \<and> (fetched_instrs s < perf_instrs s
          \<and> (use_rd (getExeFlags (rob_instr h)) \<longrightarrow> getRd (rob_instr h) < length (reg_file s)) \<longrightarrow>
            commit s = Inl AssertFailed)
       \<and> (perf_instrs s \<le> fetched_instrs s
          \<and> (use_rd (getExeFlags (rob_instr h)) \<longrightarrow> getRd (rob_instr h) < length (reg_file s)) \<longrightarrow>
            (\<exists>t. commit s = Inr t))
       \<and> (commit s = Inr s' \<longrightarrow>
            perf_instrs s \<le> fetched_instrs s
          \<and> perf_instrs s' = perf_instrs s + 1
          \<and> fetched_instrs s' = fetched_instrs s)"
  using assms(2-4) unfolding h_def
  by (auto simp: commit_cases retired_def head_instr_def ROB_head_index_def Let_def)

lemma commit_AssertFailed:
  "commit s = Inl AssertFailed \<Longrightarrow> \<not> ROB_empty (ROB s) \<and> fetched_instrs s < perf_instrs s"
  by (auto simp: commit_cases split: if_splits)

lemma commit_Inr_counters:
  assumes "commit s = Inr s'"
  shows "fetched_instrs s' = fetched_instrs s
       \<and> perf_instrs s' =
           (if \<not> ROB_empty (ROB s) \<and> rob_ready (rob_store (ROB s) ! ROB_head_index (ROB s))
            then perf_instrs s + 1 else perf_instrs s)"
  using assms
  by (auto simp: commit_cases retired_def ROB_head_index_def Let_def split: if_splits)

text \<open>
  Claim C7. Take a run of stage calls and fetches, in any order, from an accounted core.
  In every state \<open>s\<close> it reaches, the committed counter is at most the fetched counter,
  and the assertion of commit does not fail. A commit that retires an instruction (the
  reorder buffer is not empty and its head \<open>h\<close> is ready) increments the committed
  counter by one, leaves the fetched counter as it is, and the committed counter is
  still at most the fetched counter afterwards. A violation is fatal: in any state \<open>t\<close>
  with more instructions counted committed than fetched, a commit that would retire
  aborts, by the assertion unless the write of the destination register is out of range
  and aborts first. The assertion is taken as compiled in.
\<close>

theorem committed_never_exceeds_fetched:
  fixes x :: ext and s0 s s' t :: core and acts :: "action list"
  defines "h \<equiv> rob_store (ROB s) ! ROB_head_index (ROB s)"
    and "g \<equiv> rob_store (ROB t) ! ROB_head_index (ROB t)"
  assumes "accounted s0" and "run x acts s0 = Inr s"
  shows "perf_instrs s \<le> fetched_instrs s
       \<and> commit s \<noteq> Inl AssertFailed
       \<and> (commit s = Inr s' \<and> \<not> ROB_empty (ROB s) \<and> rob_ready h \<longrightarrow>
            perf_instrs s' = perf_instrs s + 1
          \<and> fetched_instrs s' = fetched_instrs s
          \<and> perf_instrs s' \<le> fetched_instrs s')
       \<and> (commit s = Inr s' \<longrightarrow> perf_instrs s' \<le> fetched_instrs s')
       \<and> (\<not> ROB_empty (ROB t) \<and> ROB_head_index (ROB t) < length (rob_store (ROB t))
          \<and> rob_ready g \<and> fetched_instrs t < perf_instrs t \<longrightarrow>
            (\<exists>e. commit t = Inl e)
          \<and> ((use_rd (getExeFlags (rob_instr g)) \<longrightarrow> getRd (rob_instr g) < length (reg_file t)) \<longrightarrow>
                commit t = Inl AssertFailed))"
proof -
  have acc: "accounted s" using accounted_run [OF assms(3,4)] .
  then have a: "perf_instrs s \<le> fetched_instrs s" by (simp add: accounted_def)
  have b: "commit s \<noteq> Inl AssertFailed"
    using a commit_AssertFailed [of s] by auto
  have d: "perf_instrs s' \<le> fetched_instrs s'" if "commit s = Inr s'"
    using accounted_commit [OF acc that] by (simp add: accounted_def)
  have c: "perf_instrs s' = perf_instrs s + 1 \<and> fetched_instrs s' = fetched_instrs s
          \<and> perf_instrs s' \<le> fetched_instrs s'"
    if "commit s = Inr s'" "\<not> ROB_empty (ROB s)" "rob_ready h"
    using commit_Inr_counters [OF that(1)] that(2,3) d [OF that(1)] by (simp add: h_def)
  have e: "(\<exists>e. commit t = Inl e)
          \<and> ((use_rd (getExeFlags (rob_instr g)) \<longrightarrow> getRd (rob_instr g) < length (reg_file t)) \<longrightarrow>
                commit t = Inl AssertFailed)"
    if "\<not> ROB_empty (ROB t)" "ROB_head_index (ROB t) < length (rob_store (ROB t))"
      "rob_ready g" "fetched_instrs t < perf_instrs t"
    using commit_counter_step [of t] that unfolding g_def by blast
  show ?thesis
    using a b c d e by blast
qed

lemma ex_run_5:
  "run ex_ext [Issue, Issue, Execute, Execute, Writeback] ex_core = Inr ex_core5"
  by (simp add: ex_issue_1 ex_issue_2 ex_execute_3 ex_execute_4 ex_writeback_5)

theorem committed_never_exceeds_fetched_witness:
  "accounted ex_core
   \<and> run ex_ext [Issue, Issue, Execute, Execute, Writeback] ex_core = Inr ex_core5
   \<and> commit ex_core5 = Inr ex_core6
   \<and> \<not> ROB_empty (ROB ex_core5)
   \<and> rob_ready (rob_store (ROB ex_core5) ! ROB_head_index (ROB ex_core5))
   \<and> perf_instrs ex_core5 = 0 \<and> fetched_instrs ex_core5 = 2
   \<and> perf_instrs ex_core6 = 1 \<and> fetched_instrs ex_core6 = 2
   \<and> commit (ex_core5\<lparr>perf_instrs := 3\<rparr>) = Inl AssertFailed"
proof -
  have acc: "accounted ex_core"
    by (simp add: accounted_def ex_defs)
  have facts: "\<not> ROB_empty (ROB ex_core5)
   \<and> rob_ready (rob_store (ROB ex_core5) ! ROB_head_index (ROB ex_core5))
   \<and> perf_instrs ex_core5 = 0 \<and> fetched_instrs ex_core5 = 2
   \<and> perf_instrs ex_core6 = 1 \<and> fetched_instrs ex_core6 = 2
   \<and> commit (ex_core5\<lparr>perf_instrs := 3\<rparr>) = Inl AssertFailed"
    by (simp add: commit_eval ROB_head_index_def ex_states ex_defs)
  show ?thesis
    using committed_never_exceeds_fetched [OF acc ex_run_5, of ex_core6
            "ex_core5\<lparr>perf_instrs := 3\<rparr>"]
    by - (rule conjI [OF acc conjI [OF ex_run_5 conjI [OF ex_commit_6 facts]]])
qed

lemma issue_exited: "issue s = Inr s' \<Longrightarrow> exited s' = exited s"
  by (auto simp: issue_read_operand bind_err_eq_Inr issued_def Let_def split: if_splits)

lemma execute_exited: "execute x s = Inr s' \<Longrightarrow> exited s' = exited s"
  by (auto simp: execute_eq_Inr)

lemma writeback_exited: "writeback s = Inr s' \<Longrightarrow> exited s' = exited s"
  by (auto simp: writeback_cases written_back_def split: option.splits if_splits)

lemma run_no_commit_exited:
  "Commit \<notin> set acts \<Longrightarrow> run x acts s = Inr s' \<Longrightarrow> exited s' = exited s"
proof (induction acts arbitrary: s)
  case Nil
  then show ?case by simp
next
  case (Cons a acts)
  obtain t where t: "step x a s = Inr t" "run x acts t = Inr s'"
    using Cons.prems(2) by (auto simp: bind_err_eq_Inr)
  have "exited t = exited s"
    using t(1) Cons.prems(1)
    by (cases a) (auto dest: issue_exited execute_exited writeback_exited)
  moreover have "exited s' = exited t"
    using Cons.IH [OF _ t(2)] Cons.prems(1) by simp
  ultimately show ?case by simp
qed

text \<open>
  Claim C8. Issue, execute and writeback leave the termination flag as it is, and so
  does every run without a commit. A commit that returns sets the flag exactly when it
  retires an instruction (the reorder buffer is not empty and its head \<open>h\<close> is ready)
  whose flags include \<open>is_exit\<close>; a flag that turns true has therefore turned in a commit
  that popped an exit instruction from the head of the reorder buffer.
\<close>

theorem exit_only_at_commit:
  fixes x :: ext and s s0 s1 s2 s3 s4 s5 :: core and acts :: "action list"
  defines "h \<equiv> rob_store (ROB s) ! ROB_head_index (ROB s)"
  shows "(issue s = Inr s1 \<longrightarrow> exited s1 = exited s)
       \<and> (execute x s = Inr s2 \<longrightarrow> exited s2 = exited s)
       \<and> (writeback s = Inr s3 \<longrightarrow> exited s3 = exited s)
       \<and> (commit s = Inr s4 \<longrightarrow>
            exited s4 = (exited s \<or> (\<not> ROB_empty (ROB s) \<and> rob_ready h
                                       \<and> is_exit (getExeFlags (rob_instr h))))
          \<and> (exited s4 \<and> \<not> exited s \<longrightarrow>
                ROB s4 = ROB_pop (ROB s) \<and> perf_instrs s4 = perf_instrs s + 1))
       \<and> (Commit \<notin> set acts \<and> run x acts s0 = Inr s5 \<longrightarrow> exited s5 = exited s0)"
proof -
  have c: "exited s4 = (exited s \<or> (\<not> ROB_empty (ROB s) \<and> rob_ready h
                                       \<and> is_exit (getExeFlags (rob_instr h))))
          \<and> (exited s4 \<and> \<not> exited s \<longrightarrow>
                ROB s4 = ROB_pop (ROB s) \<and> perf_instrs s4 = perf_instrs s + 1)"
    if "commit s = Inr s4"
    using that unfolding h_def
    by (auto simp: commit_cases retired_def head_instr_def ROB_head_index_def Let_def
          split: if_splits)
  show ?thesis
    using c issue_exited execute_exited writeback_exited run_no_commit_exited by blast
qed

theorem exit_only_at_commit_witness:
  "run ex_ext [Issue, Execute, Execute, Writeback] ex_exit_start = Inr ex_exit_wb
   \<and> commit ex_exit_wb = Inr ex_exit_done
   \<and> Commit \<notin> set [Issue, Execute, Execute, Writeback]
   \<and> \<not> exited ex_exit_start \<and> \<not> exited ex_exit_wb \<and> exited ex_exit_done
   \<and> \<not> ROB_empty (ROB ex_exit_wb)
   \<and> rob_ready (rob_store (ROB ex_exit_wb) ! ROB_head_index (ROB ex_exit_wb))
   \<and> is_exit (getExeFlags (rob_instr (rob_store (ROB ex_exit_wb) ! ROB_head_index (ROB ex_exit_wb))))"
proof -
  have facts: "Commit \<notin> set [Issue, Execute, Execute, Writeback]
   \<and> \<not> exited ex_exit_start \<and> \<not> exited ex_exit_wb \<and> exited ex_exit_done
   \<and> \<not> ROB_empty (ROB ex_exit_wb)
   \<and> rob_ready (rob_store (ROB ex_exit_wb) ! ROB_head_index (ROB ex_exit_wb))
   \<and> is_exit (getExeFlags (rob_instr (rob_store (ROB ex_exit_wb) ! ROB_head_index (ROB ex_exit_wb))))"
    by (simp add: ROB_empty_def ROB_head_index_def ex_exit_start_def ex_exit_wb_def
          ex_exit_done_def ex_defs)
  show ?thesis
    using exit_only_at_commit [of ex_exit_wb ex_exit_wb ex_ext ex_exit_wb ex_exit_wb
            ex_exit_done "[Issue, Execute, Execute, Writeback]" ex_exit_start ex_exit_wb]
    by - (rule conjI [OF ex_exit_run conjI [OF ex_exit_commit facts]])
qed

section \<open>The alias table names the youngest writer\<close>

subsection \<open>The circular buffer\<close>

lemma mod_shift_le:
  fixes h n k k' :: nat
  assumes "(h + k) mod n = (h + k') mod n" and "k \<le> k'" and "k' < n"
  shows "k = k'"
proof -
  have "n dvd (h + k') - (h + k)"
    using assms(1,2) mod_eq_dvd_iff_nat [of "h + k" "h + k'" n] by simp
  then have "n dvd k' - k" by simp
  moreover have "k' - k < n" using assms(3) by simp
  ultimately have "k' - k = 0" using nat_dvd_not_less by (cases "k' - k = 0") auto
  with assms(2) show ?thesis by simp
qed

lemma mod_shift_inj:
  fixes h n k k' :: nat
  assumes "(h + k) mod n = (h + k') mod n" and "k < n" and "k' < n"
  shows "k = k'"
proof (cases "k \<le> k'")
  case True
  then show ?thesis using assms mod_shift_le by blast
next
  case False
  then have "k' \<le> k" by simp
  then have "k' = k" using assms mod_shift_le [of h k' n k] by simp
  then show ?thesis by simp
qed

lemma inflight_distinct: "rob_ok r \<Longrightarrow> distinct (inflight r)"
  unfolding inflight_def rob_ok_def
  by (auto simp: distinct_map intro!: inj_onI dest!: mod_shift_inj)

lemma inflight_allocate:
  assumes "rob_ok r" and "\<not> ROB_full r"
  shows "inflight (snd (ROB_allocate r instr)) = inflight r @ [ROB_tail_index r]"
    and "ROB_tail_index r \<notin> set (inflight r)"
    and "ROB_tail_index r < length (rob_store r)"
proof -
  show "inflight (snd (ROB_allocate r instr)) = inflight r @ [ROB_tail_index r]"
    by (simp add: inflight_def ROB_allocate_def ROB_tail_index_def)
  have c: "rob_count r < length (rob_store r)"
    using assms by (simp add: rob_ok_def ROB_full_def)
  show "ROB_tail_index r \<notin> set (inflight r)"
  proof
    assume "ROB_tail_index r \<in> set (inflight r)"
    then obtain k where k: "k < rob_count r"
      "(rob_head r + rob_count r) mod length (rob_store r) = (rob_head r + k) mod length (rob_store r)"
      by (auto simp: inflight_def ROB_tail_index_def)
    then have "rob_count r = k" using c by (intro mod_shift_inj [OF k(2)]) simp_all
    with k(1) show False by simp
  qed
  show "ROB_tail_index r < length (rob_store r)"
    using assms(1) by (simp add: ROB_tail_index_def rob_ok_def)
qed

lemma inflight_pop:
  assumes "rob_ok r" and "\<not> ROB_empty r"
  shows "inflight r = rob_head r # inflight (ROB_pop r)"
proof -
  obtain c where c: "rob_count r = Suc c"
    using assms(2) by (cases "rob_count r") (simp_all add: ROB_empty_def)
  have "[0..<Suc c] = 0 # map Suc [0..<c]"
    by (simp add: upt_conv_Cons map_Suc_upt del: upt_Suc)
  then have "inflight r = map (\<lambda>k. (rob_head r + k) mod length (rob_store r)) (0 # map Suc [0..<c])"
    by (simp add: inflight_def c del: upt_Suc)
  also have "\<dots> = rob_head r # inflight (ROB_pop r)"
    using assms(1) by (simp add: inflight_def ROB_pop_def c rob_ok_def mod_add_left_eq o_def)
  finally show ?thesis .
qed

lemma find_append':
  "List.find P (xs @ ys) = (case List.find P xs of Some x \<Rightarrow> Some x | None \<Rightarrow> List.find P ys)"
  by (induction xs) auto


subsection \<open>The invariant and the stages\<close>


lemma find_cong_set:
  "(\<And>x. x \<in> set xs \<Longrightarrow> P x = Q x) \<Longrightarrow> List.find P xs = List.find Q xs"
  by (induction xs) auto

lemma find_in_set: "List.find P xs = Some x \<Longrightarrow> x \<in> set xs \<and> P x"
  by (induction xs) (auto split: if_splits)

lemma rob_ok_allocate:
  "rob_ok r \<Longrightarrow> \<not> ROB_full r \<Longrightarrow> rob_ok (snd (ROB_allocate r instr))"
  by (auto simp: rob_ok_def ROB_full_def ROB_allocate_def)

lemma rob_ok_pop: "rob_ok r \<Longrightarrow> rob_ok (ROB_pop r)"
  by (auto simp: rob_ok_def ROB_pop_def)

lemma issued_ROB: "ROB (issued s o1 o2) = snd (ROB_allocate (ROB s) (hd (issue_queue s)))"
  by (simp add: issued_def Let_def ROB_allocate_def)

lemma issued_RAT:
  "RAT (issued s o1 o2) reg =
     (if use_rd (getExeFlags (hd (issue_queue s))) \<and> getRd (hd (issue_queue s)) = reg
      then Some (ROB_tail_index (ROB s)) else RAT s reg)"
  by (simp add: issued_def Let_def)

lemma youngest_writer_allocate:
  assumes "rob_ok r" and "\<not> ROB_full r"
  shows "youngest_writer (snd (ROB_allocate r instr)) reg =
     (if use_rd (getExeFlags instr) \<and> getRd instr = reg then Some (ROB_tail_index r)
      else youngest_writer r reg)"
proof -
  let ?t = "ROB_tail_index r"
  let ?r' = "snd (ROB_allocate r instr)"
  have st: "rob_store ?r' = (rob_store r)[?t := \<lparr>rob_instr = instr, rob_ready = False, rob_result = 0\<rparr>]"
    by (simp add: ROB_allocate_def)
  have new: "rob_store ?r' ! ?t = \<lparr>rob_instr = instr, rob_ready = False, rob_result = 0\<rparr>"
    using inflight_allocate(3) [OF assms] by (simp add: st)
  have old: "rob_store ?r' ! i = rob_store r ! i" if "i \<in> set (rev (inflight r))" for i
  proof -
    have "i \<noteq> ?t" using that inflight_allocate(2) [OF assms] by auto
    then show ?thesis by (simp add: st)
  qed
  have same: "List.find (\<lambda>i. writes_reg reg (rob_store ?r' ! i)) (rev (inflight r))
      = List.find (\<lambda>i. writes_reg reg (rob_store r ! i)) (rev (inflight r))"
    by (rule find_cong_set) (simp add: old)
  have t: "writes_reg reg (rob_store ?r' ! ?t) = (use_rd (getExeFlags instr) \<and> getRd instr = reg)"
    by (simp add: new writes_reg_def)
  show ?thesis
    unfolding youngest_writer_def inflight_allocate(1) [OF assms]
    by (simp add: t same)
qed

lemma rat_inv_issue:
  assumes "rat_inv s" and "issue s = Inr s'"
  shows "rat_inv s'"
proof (cases "issue_queue s = [] \<or> RS_full (RS s) \<or> ROB_full (ROB s)")
  case True
  then have "s' = s" using assms(2) by (simp add: issue_read_operand)
  with assms(1) show ?thesis by simp
next
  case False
  then obtain o1 o2 where s': "s' = issued s o1 o2"
    using issue_Inr_proceeds [OF assms(2)] by blast
  have ok: "rob_ok (ROB s)" and nf: "\<not> ROB_full (ROB s)"
    using assms(1) False by (simp_all add: rat_inv_def)
  have "RAT s' reg = youngest_writer (ROB s') reg" for reg
    using assms(1)
    by (simp add: s' issued_ROB issued_RAT youngest_writer_allocate [OF ok nf] rat_inv_def)
  moreover have "rob_ok (ROB s')"
    by (simp add: s' issued_ROB rob_ok_allocate [OF ok nf])
  ultimately show ?thesis by (simp add: rat_inv_def)
qed

lemma youngest_writer_pop:
  assumes "rob_ok r" and "\<not> ROB_empty r"
  shows "youngest_writer r reg =
     (case youngest_writer (ROB_pop r) reg of
        Some i \<Rightarrow> Some i
      | None \<Rightarrow> if writes_reg reg (rob_store r ! rob_head r) then Some (rob_head r) else None)"
  unfolding youngest_writer_def inflight_pop [OF assms]
  by (simp add: find_append' ROB_pop_def split: option.splits)

lemma youngest_writer_pop_not_head:
  assumes "rob_ok r" and "\<not> ROB_empty r"
  shows "youngest_writer (ROB_pop r) reg \<noteq> Some (rob_head r)"
proof
  assume "youngest_writer (ROB_pop r) reg = Some (rob_head r)"
  then have "rob_head r \<in> set (inflight (ROB_pop r))"
    unfolding youngest_writer_def by (auto dest: find_in_set)
  moreover have "distinct (rob_head r # inflight (ROB_pop r))"
    using inflight_distinct [OF assms(1)] inflight_pop [OF assms] by simp
  ultimately show False by simp
qed

lemma rat_inv_retired:
  assumes "rat_inv s" and "\<not> ROB_empty (ROB s)"
  shows "rat_inv (retired s)"
proof -
  have ok: "rob_ok (ROB s)" and rat: "\<And>reg. RAT s reg = youngest_writer (ROB s) reg"
    using assms(1) by (simp_all add: rat_inv_def)
  let ?h = "rob_store (ROB s) ! rob_head (ROB s)"
  have rob: "ROB (retired s) = ROB_pop (ROB s)"
    by (simp add: retired_def Let_def)
  have "RAT (retired s) reg = youngest_writer (ROB_pop (ROB s)) reg" for reg
  proof (cases "writes_reg reg ?h")
    case True
    then have rd: "use_rd (getExeFlags (rob_instr ?h))" "getRd (rob_instr ?h) = reg"
      by (simp_all add: writes_reg_def)
    show ?thesis
    proof (cases "youngest_writer (ROB_pop (ROB s)) reg")
      case None
      then have "RAT s reg = Some (rob_head (ROB s))"
        using True by (simp add: rat youngest_writer_pop [OF ok assms(2)])
      then show ?thesis using rd None by (simp add: retired_def Let_def)
    next
      case (Some i)
      then have "RAT s reg = Some i"
        by (simp add: rat youngest_writer_pop [OF ok assms(2)])
      moreover have "i \<noteq> rob_head (ROB s)"
        using Some youngest_writer_pop_not_head [OF ok assms(2)] by auto
      ultimately show ?thesis using rd Some by (simp add: retired_def Let_def)
    qed
  next
    case False
    then have "RAT (retired s) reg = RAT s reg"
      by (auto simp: retired_def Let_def writes_reg_def)
    also have "\<dots> = youngest_writer (ROB_pop (ROB s)) reg"
      using False
      by (simp add: rat youngest_writer_pop [OF ok assms(2)] split: option.splits)
    finally show ?thesis .
  qed
  then show ?thesis
    by (simp add: rat_inv_def rob rob_ok_pop [OF ok])
qed

lemma rat_inv_commit:
  assumes "rat_inv s" and "commit s = Inr s'"
  shows "rat_inv s'"
proof (cases "s' = s")
  case True
  with assms(1) show ?thesis by simp
next
  case False
  then have "\<not> ROB_empty (ROB s)" and "s' = retired s"
    using assms(2) by (auto simp: commit_cases split: if_splits)
  then show ?thesis using rat_inv_retired [OF assms(1)] by simp
qed

lemma rat_inv_written_back:
  assumes "rat_inv s"
  shows "rat_inv (written_back s msg)"
proof -
  let ?r' = "ROB (written_back s msg)"
  have h: "rob_head ?r' = rob_head (ROB s)" "rob_count ?r' = rob_count (ROB s)"
    "length (rob_store ?r') = length (rob_store (ROB s))"
    by (simp_all add: written_back_def)
  have inf: "inflight ?r' = inflight (ROB s)"
    by (simp add: inflight_def h)
  have w: "writes_reg reg (rob_store ?r' ! i) = writes_reg reg (rob_store (ROB s) ! i)" for reg i
    by (cases "i = cdb_rob_index msg"; cases "i < length (rob_store (ROB s))")
       (simp_all add: written_back_def writes_reg_def list_update_beyond)
  have "youngest_writer ?r' reg = youngest_writer (ROB s) reg" for reg
    by (simp add: youngest_writer_def inf w)
  moreover have "rob_ok ?r' = rob_ok (ROB s)" by (simp add: rob_ok_def h)
  moreover have "RAT (written_back s msg) = RAT s" by (simp add: written_back_def)
  ultimately show ?thesis using assms by (simp add: rat_inv_def)
qed

lemma rat_inv_writeback:
  assumes "rat_inv s" and "writeback s = Inr s'"
  shows "rat_inv s'"
  using assms rat_inv_written_back
  by (auto simp: writeback_cases split: option.splits if_splits)

lemma rat_inv_execute:
  assumes "rat_inv s" and "execute x s = Inr s'"
  shows "rat_inv s'"
  using assms by (auto simp: execute_eq_Inr rat_inv_def)

lemma rat_inv_step:
  assumes "rat_inv s" and "step x a s = Inr s'"
  shows "rat_inv s'"
proof (cases a)
  case Issue
  then show ?thesis using assms rat_inv_issue by simp
next
  case Execute
  then show ?thesis using assms rat_inv_execute by simp
next
  case Writeback
  then show ?thesis using assms rat_inv_writeback by simp
next
  case Commit
  then show ?thesis using assms rat_inv_commit by simp
next
  case (Fetch instr)
  then show ?thesis using assms by (auto simp: rat_inv_def)
qed

lemma rat_inv_run:
  "rat_inv s \<Longrightarrow> run x acts s = Inr s' \<Longrightarrow> rat_inv s'"
proof (induction acts arbitrary: s)
  case Nil
  then show ?case by simp
next
  case (Cons a acts)
  obtain t where t: "step x a s = Inr t" "run x acts t = Inr s'"
    using Cons.prems(2) by (auto simp: bind_err_eq_Inr)
  show ?case using Cons.IH [OF rat_inv_step [OF Cons.prems(1) t(1)] t(2)] .
qed

lemma reset_rat_inv: "reset s \<Longrightarrow> rat_inv s"
  by (simp add: reset_def rat_inv_def youngest_writer_def inflight_def ROB_empty_def)


text \<open>
  Claim C1. Take a run of stage calls, in any order and with any instructions fetched,
  from a core whose reorder buffer and alias table are empty. In every state \<open>s\<close> it
  reaches, the alias table maps a register \<open>reg\<close> exactly to the youngest in-flight
  writer of \<open>reg\<close>: a mapping to \<open>j\<close> names an occupied slot of the reorder buffer whose
  instruction writes \<open>reg\<close>, and no instruction issued later and not yet committed writes
  \<open>reg\<close>. In particular, in any state \<open>t\<close>, an issue that proceeds with an instruction
  that writes a register maps its destination to the slot it allocates; and in any state
  \<open>u\<close>, a commit clears the entry of a register only when it retires a writer of that
  register and the entry still names the head of the reorder buffer, so an entry that
  names a younger instruction \<open>j\<close> survives the commit.
\<close>

theorem rat_names_youngest_writer:
  fixes x :: ext and s0 s t t' u u' :: core and acts :: "action list" and reg r j :: nat
  defines "instr \<equiv> hd (issue_queue t)"
    and "h \<equiv> rob_store (ROB u) ! ROB_head_index (ROB u)"
  assumes "reset s0" and "run x acts s0 = Inr s"
  shows "RAT s reg = youngest_writer (ROB s) reg
       \<and> (RAT s reg = Some j \<longrightarrow>
            j \<in> set (inflight (ROB s)) \<and> writes_reg reg (rob_store (ROB s) ! j))
       \<and> (issue t = Inr t' \<and> issue_queue t \<noteq> [] \<and> \<not> RS_full (RS t) \<and> \<not> ROB_full (ROB t)
          \<and> use_rd (getExeFlags instr) \<longrightarrow>
            RAT t' (getRd instr) = Some (ROB_tail_index (ROB t)))
       \<and> (commit u = Inr u' \<longrightarrow>
            RAT u' r =
              (if \<not> ROB_empty (ROB u) \<and> rob_ready h \<and> use_rd (getExeFlags (rob_instr h))
                  \<and> getRd (rob_instr h) = r \<and> RAT u r = Some (ROB_head_index (ROB u))
               then None else RAT u r))
       \<and> (commit u = Inr u' \<and> RAT u r = Some j \<and> j \<noteq> ROB_head_index (ROB u) \<longrightarrow>
            RAT u' r = Some j)"
proof -
  have inv: "rat_inv s"
    using rat_inv_run [OF reset_rat_inv [OF assms(3)] assms(4)] .
  then have a: "RAT s reg = youngest_writer (ROB s) reg"
    by (simp add: rat_inv_def)
  have b: "j \<in> set (inflight (ROB s)) \<and> writes_reg reg (rob_store (ROB s) ! j)"
    if "RAT s reg = Some j"
  proof -
    have "List.find (\<lambda>i. writes_reg reg (rob_store (ROB s) ! i)) (rev (inflight (ROB s))) = Some j"
      using that a by (simp add: youngest_writer_def)
    from find_in_set [OF this] show ?thesis by simp
  qed
  have c: "RAT t' (getRd instr) = Some (ROB_tail_index (ROB t))"
    if "issue t = Inr t'" "issue_queue t \<noteq> []" "\<not> RS_full (RS t)" "\<not> ROB_full (ROB t)"
      "use_rd (getExeFlags instr)"
    using issue_Inr_proceeds [OF that(1-4)] that(5)
    by (auto simp: issued_RAT instr_def)
  have d: "RAT u' r =
              (if \<not> ROB_empty (ROB u) \<and> rob_ready h \<and> use_rd (getExeFlags (rob_instr h))
                  \<and> getRd (rob_instr h) = r \<and> RAT u r = Some (ROB_head_index (ROB u))
               then None else RAT u r)"
    if "commit u = Inr u'"
    using that unfolding h_def
    by (auto simp: commit_cases retired_def head_instr_def ROB_head_index_def Let_def
          split: if_splits)
  have e: "RAT u' r = Some j"
    if "commit u = Inr u'" "RAT u r = Some j" "j \<noteq> ROB_head_index (ROB u)"
    using d [OF that(1)] that(2,3) by simp
  show ?thesis
    using a b c d e by blast
qed


theorem rat_names_youngest_writer_witness:
  "reset ex_waw
   \<and> run ex_ext [Issue, Issue, Execute, Execute, Writeback, Commit] ex_waw = Inr ex_waw_end
   \<and> RAT ex_waw_end 1 = Some 1
   \<and> youngest_writer (ROB ex_waw_end) 1 = Some 1
   \<and> inflight (ROB ex_waw_end) = [1]
   \<and> writes_reg 1 (rob_store (ROB ex_waw_end) ! 1)"
proof -
  have r: "reset ex_waw"
    by (simp add: reset_def rob_ok_def ROB_empty_def ex_waw_def ex_defs)
  have m: "RAT ex_waw_end 1 = Some 1 \<and> inflight (ROB ex_waw_end) = [1]"
    by (simp add: ex_waw_end_def ex_defs inflight_def)
  show ?thesis
    using rat_names_youngest_writer [OF r ex_waw_run, of 1 1] r ex_waw_run m
    by simp
qed

end
